theory Spec2Isabelle
  imports Main "HOL-Library.AList" "HOL-Library.Word" "HOL-Library.Multiset"
begin

section \<open>JavaScript values and objects\<close>

text \<open>
  The values the object validator of \<^verbatim>\<open>lib/types/object.js\<close> walks over. Numbers are
  integers here (no claim looks at fractions), an array is the list of its elements, and an
  object or a function is the list of its own enumerable properties in enumeration order
  (insertion order; the engine's rule that array-index keys come first is not modelled).
  Values are ordinary objects, whose prototype chain ends in \<open>Object.prototype\<close>: its
  accessor \<open>__proto__\<close> takes every assignment to that key, and a fresh object literal
  inherits its members. Reading a member that the value itself inherits is not modelled:
  \<open>target[key]\<close> reads own properties only.
  Property names are \<^typ>\<open>string\<close>s that are only compared and matched, never measured.
  A string value is the list of its UTF-16 code units, which is what \<open>length\<close> and
  \<open>slice\<close> count.
\<close>

type_synonym jsstring = "16 word list"

datatype jsval =
    Undefined
  | Null
  | JBool bool
  | JNum int
  | JStr jsstring
  | JArr "jsval list"
  | JObj "(string \<times> jsval) list"
  | JFunc "(string \<times> jsval) list"

type_synonym props = "(string \<times> jsval) list"

datatype jstype = TUndefined | TObject | TBoolean | TNumber | TString | TFunction

fun typeof :: "jsval \<Rightarrow> jstype" where
  "typeof Undefined = TUndefined"
| "typeof Null = TObject"
| "typeof (JBool b) = TBoolean"
| "typeof (JNum n) = TNumber"
| "typeof (JStr s) = TString"
| "typeof (JArr xs) = TObject"
| "typeof (JObj ps) = TObject"
| "typeof (JFunc ps) = TFunction"

text \<open>\<open>!value\<close>: the falsy values.\<close>

fun falsy :: "jsval \<Rightarrow> bool" where
  "falsy Undefined = True"
| "falsy Null = True"
| "falsy (JBool b) = (\<not> b)"
| "falsy (JNum n) = (n = 0)"
| "falsy (JStr s) = (s = [])"
| "falsy v = False"

fun isArray :: "jsval \<Rightarrow> bool" where
  "isArray (JArr xs) = True"
| "isArray v = False"

fun own_props :: "jsval \<Rightarrow> props" where
  "own_props (JObj ps) = ps"
| "own_props (JFunc ps) = ps"
| "own_props v = []"

text \<open>\<open>target[key]\<close>, \<open>target[key] = v\<close>, \<open>delete target[key]\<close>,
  \<open>Object.prototype.hasOwnProperty.call(target, key)\<close> and \<open>Object.keys(target)\<close>.
  An assignment to an existing key keeps its place, a new key goes to the end.\<close>

definition prop_get :: "props \<Rightarrow> string \<Rightarrow> jsval" where
  "prop_get ps k = (case map_of ps k of None \<Rightarrow> Undefined | Some v \<Rightarrow> v)"

definition prop_set :: "props \<Rightarrow> string \<Rightarrow> jsval \<Rightarrow> props" where
  "prop_set ps k v = AList.update k v ps"

definition prop_delete :: "props \<Rightarrow> string \<Rightarrow> props" where
  "prop_delete ps k = AList.delete k ps"

definition hasOwnProperty :: "props \<Rightarrow> string \<Rightarrow> bool" where
  "hasOwnProperty ps k = (k \<in> set (map fst ps))"

definition Object_keys :: "props \<Rightarrow> string list" where
  "Object_keys ps = map fst ps"

text \<open>The names of the members that an object inherits from \<open>Object.prototype\<close>. Each
  of them is a function, and \<open>__proto__\<close> reads as the prototype itself: read from a fresh
  object literal, every one is truthy.\<close>

definition Object_prototype_keys :: "string list" where
  "Object_prototype_keys =
     [''constructor'', ''__defineGetter__'', ''__defineSetter__'', ''hasOwnProperty'',
      ''__lookupGetter__'', ''__lookupSetter__'', ''isPrototypeOf'', ''propertyIsEnumerable'',
      ''toString'', ''valueOf'', ''__proto__'', ''toLocaleString'']"

text \<open>The assignment \<open>target[key] = v\<close> as the walk performs it on the working copy: the
  key \<open>__proto__\<close> goes to the inherited setter and no own property is made (the change
  of prototype it may cause is outside the model); any other key is written.\<close>

definition prop_assign :: "props \<Rightarrow> string \<Rightarrow> jsval \<Rightarrow> props" where
  "prop_assign ps k v = (if k = ''__proto__'' then ps else prop_set ps k v)"

text \<open>
  The shallow copy of lines 90 to 107: a fresh object with the prototype of the value (or,
  for a function, a fresh function that calls it), to which \<open>Object.assign\<close> then assigns
  the own enumerable properties of the value one by one. An own key \<open>__proto__\<close> of the
  value goes to the inherited setter like every assignment to that key, so it is not a
  key of the copy (an object given under it becomes the prototype of the copy, which the
  model does not follow). The option \<open>nonEnumerables\<close>, under which the copy is made by
  \<open>Hoek.clone\<close> instead, is off by default and is not among the options of the model.
\<close>

definition shallow_copy :: "props \<Rightarrow> props" where
  "shallow_copy ps = filter (\<lambda>p. fst p \<noteq> ''__proto__'') ps"

text \<open>
  Modelled from the spec: \<open>Hoek.reach(obj, path, { functions: true })\<close> belongs to the
  \<^verbatim>\<open>@hapi/hoek\<close> package, which is not under src/. The spec (4.4) says that a peer path
  resolves through nested containers, including through callable-bearing intermediates, and
  that a peer is present when its path resolves to a defined value. Here a segment reads an
  own property of an object or function and a decimal index of an array; a missing
  segment, or a segment below anything else, resolves to \<open>undefined\<close>.
\<close>

definition digit_val :: "char \<Rightarrow> nat option" where
  "digit_val c =
     (let n = (of_char c :: nat) in if 48 \<le> n \<and> n \<le> 57 then Some (n - 48) else None)"

fun parse_index :: "nat \<Rightarrow> string \<Rightarrow> nat option" where
  "parse_index acc [] = Some acc"
| "parse_index acc (c # cs) =
     (case digit_val c of None \<Rightarrow> None | Some d \<Rightarrow> parse_index (10 * acc + d) cs)"

definition reach_segment :: "jsval \<Rightarrow> string \<Rightarrow> jsval" where
  "reach_segment ref k =
     (case ref of
        JObj ps \<Rightarrow> prop_get ps k
      | JFunc ps \<Rightarrow> prop_get ps k
      | JArr xs \<Rightarrow>
          (if k = [] then Undefined
           else case parse_index 0 k of
                  None \<Rightarrow> Undefined
                | Some i \<Rightarrow> (if i < length xs then xs ! i else Undefined))
      | _ \<Rightarrow> Undefined)"

fun reach :: "jsval \<Rightarrow> string list \<Rightarrow> jsval" where
  "reach ref [] = ref"
| "reach ref (k # ks) =
     (if reach_segment ref k = Undefined then Undefined
      else reach (reach_segment ref k) ks)"

section \<open>Errors, state and options\<close>

text \<open>
  Modelled from the spec: \<open>createError\<close> and \<open>_state\<close> are methods of the base class in
  \<^verbatim>\<open>lib/types/any.js\<close>, which is not under src/. The spec (3) gives an error as
  code, context and path, and a validation state as path and ancestors; the error takes
  its path from the state it is created with.
\<close>

datatype ctxval = CValue jsval | CKey "string option" | CKeys "string list"

record verror =
  e_code :: string
  e_context :: "(string \<times> ctxval) list"
  e_path :: "string list"

record state =
  s_key :: "string option"
  s_path :: "string list"
  s_ancestors :: "jsval list"

datatype strip_unknown = StripOff | StripAll | StripOnly (strip_arrays: bool) (strip_objects: bool)

record options =
  abortEarly :: bool
  convert :: bool
  allowUnknown :: bool
  stripUnknown :: strip_unknown
  skipFunctions :: bool

definition new_state :: "string option \<Rightarrow> string list \<Rightarrow> jsval list \<Rightarrow> state" where
  "new_state k p anc = \<lparr>s_key = k, s_path = p, s_ancestors = anc\<rparr>"

definition createError ::
  "string \<Rightarrow> (string \<times> ctxval) list \<Rightarrow> state \<Rightarrow> options \<Rightarrow> verror" where
  "createError c ctx st opts = \<lparr>e_code = c, e_context = ctx, e_path = s_path st\<rparr>"

text \<open>
  Modelled from the spec: \<open>Common.default(value, defaultValue)\<close> of \<^verbatim>\<open>lib/common.js\<close>
  (not under src/): the schema's own setting when it has one, the option otherwise
  (4.2 step 9, "the schema (or option default) explicitly allows unknown keys").
\<close>

definition Common_default :: "'a option \<Rightarrow> 'a \<Rightarrow> 'a" where
  "Common_default v d = (case v of None \<Rightarrow> d | Some x \<Rightarrow> x)"

section \<open>Schema nodes\<close>

text \<open>
  A child schema is used by the object validator through three members only:
  \<open>_validate(value, state, options)\<close>, the \<open>strip\<close> flag and \<open>_refs.roots()\<close>.
  The result of \<open>_validate\<close> carries \<open>value\<close>, \<open>errors\<close> (\<open>null\<close> or a list; the code
  tests its truthiness, so an empty list counts as a failure) and \<open>outcome\<close>.
\<close>

record result =
  r_value :: jsval
  r_errors :: "verror list option"
  r_outcome :: jsval

record schema_node =
  sn_validate :: "jsval \<Rightarrow> state \<Rightarrow> options \<Rightarrow> result"
  flag_strip :: bool
  refs_roots :: "string list"

text \<open>
  Modelled from the spec: \<open>_match\<close> is a method of the base class (not under src/); a
  pattern "may be a literal matcher or itself a schema matched against the key string"
  (4.2 step 8), and a schema matches a value that it validates without error.
\<close>

definition schema_match :: "schema_node \<Rightarrow> jsval \<Rightarrow> state \<Rightarrow> options \<Rightarrow> bool" where
  "schema_match sch v st opts = (r_errors (sn_validate sch v st opts) = None)"

record child =
  c_key :: string
  c_schema :: schema_node

datatype matcher = Regex "string \<Rightarrow> bool" | KeySchema schema_node

record pattern =
  p_matcher :: matcher
  p_rule :: schema_node

record rename_options =
  opt_alias :: bool
  opt_multiple :: bool
  opt_override :: bool
  opt_ignoreUndefined :: bool

datatype rename_from = FromKey string | FromRegex "string \<Rightarrow> bool"

record rename =
  rn_from :: rename_from
  rn_to :: string
  rn_options :: rename_options

datatype dep_type = DWith | DWithout | DXor | DOxor | DOr | DAnd | DNand

record peer_path =
  pp_path :: "string list"
  pp_peer :: string

record dependency =
  d_type :: dep_type
  d_key :: "string list option"
  d_peers :: "peer_path list"
  d_orig_key :: "string option"
  d_orig_peers :: "string list"

text \<open>
  \<open>_inner.children\<close> is \<open>null\<close> (any keys) or a list. \<open>find_label\<close> stands for the
  local function \<open>findLabel\<close> of \<open>internals.keysToLabels\<close>, which looks the key up with the
  library's \<open>reach\<close> and asks the child for its label; both live outside src/.
\<close>

record object_schema =
  children :: "child list option"
  renames :: "rename list"
  dependencies :: "dependency list"
  patterns :: "pattern list"
  flag_func :: bool
  flag_allowUnknown :: "bool option"
  find_label :: "string \<Rightarrow> string"

section \<open>Renaming keys: \<open>_rename\<close>\<close>

text \<open>
  \<open>_rename(target, state, options, errors)\<close> walks the rename directives in declaration
  order over the working copy. The accumulator is the working copy, the targets renamed
  so far and the error list; the boolean is the method's return value, \<open>False\<close> for the
  early \<open>return false\<close> under \<open>abortEarly\<close>.
  The targets renamed so far are the keys that the loop has set to \<open>true\<close> on the object
  \<open>renamed = {}\<close> of line 639. The test \<open>renamed[rename.to]\<close> reads that object with its
  prototype: it is truthy for a key set before and also for the name of a member of
  \<open>Object.prototype\<close>.
\<close>

type_synonym rename_acc = "props \<times> string list \<times> verror list"

definition renamed_truthy :: "string list \<Rightarrow> string \<Rightarrow> bool" where
  "renamed_truthy renamed k = (k \<in> set renamed \<or> k \<in> set Object_prototype_keys)"

definition rename_literal ::
  "state \<Rightarrow> options \<Rightarrow> string \<Rightarrow> rename \<Rightarrow> rename_acc \<Rightarrow> bool \<times> rename_acc" where
  "rename_literal st opts src rn acc =
     (case acc of (target, renamed, errors) \<Rightarrow>
        let ro = rn_options rn; dst = rn_to rn in
        if opt_ignoreUndefined ro \<and> prop_get target src = Undefined then (True, acc)
        else
          let multi = (\<not> opt_multiple ro \<and> renamed_truthy renamed dst);
              errors1 = (if multi
                         then errors @ [createError ''object.rename.multiple''
                                  [(''from'', CKey (Some src)), (''to'', CKey (Some dst))] st opts]
                         else errors)
          in if multi \<and> abortEarly opts then (False, target, renamed, errors1)
          else
            let over = (hasOwnProperty target dst \<and> \<not> opt_override ro
                        \<and> \<not> renamed_truthy renamed dst);
                errors2 = (if over
                           then errors1 @ [createError ''object.rename.override''
                                    [(''from'', CKey (Some src)), (''to'', CKey (Some dst))] st opts]
                           else errors1)
            in if over \<and> abortEarly opts then (False, target, renamed, errors2)
            else
              let target1 = (if prop_get target src = Undefined then prop_delete target dst
                             else prop_assign target dst (prop_get target src));
                  target2 = (if \<not> opt_alias ro then prop_delete target1 src else target1)
              in (True, target2, dst # renamed, errors2))"

definition rename_regex ::
  "state \<Rightarrow> options \<Rightarrow> (string \<Rightarrow> bool) \<Rightarrow> rename \<Rightarrow> rename_acc \<Rightarrow> bool \<times> rename_acc" where
  "rename_regex st opts test rn acc =
     (case acc of (target, renamed, errors) \<Rightarrow>
        let ro = rn_options rn; dst = rn_to rn;
            matchedTargetKeys = filter test (Object_keys target);
            allUndefined = list_all (\<lambda>k. prop_get target k = Undefined) matchedTargetKeys
        in
        if opt_ignoreUndefined ro \<and> allUndefined then (True, acc)
        else
          let multi = (\<not> opt_multiple ro \<and> renamed_truthy renamed dst);
              errors1 = (if multi
                         then errors @ [createError ''object.rename.regex.multiple''
                                  [(''from'', CKeys matchedTargetKeys), (''to'', CKey (Some dst))] st opts]
                         else errors)
          in if multi \<and> abortEarly opts then (False, target, renamed, errors1)
          else
            let over = (hasOwnProperty target dst \<and> \<not> opt_override ro
                        \<and> \<not> renamed_truthy renamed dst);
                errors2 = (if over
                           then errors1 @ [createError ''object.rename.regex.override''
                                    [(''from'', CKeys matchedTargetKeys), (''to'', CKey (Some dst))] st opts]
                           else errors1)
            in if over \<and> abortEarly opts then (False, target, renamed, errors2)
            else
              let target1 = (if allUndefined then prop_delete target dst
                             else prop_assign target dst
                                    (prop_get target (last matchedTargetKeys)));
                  target2 = (if \<not> opt_alias ro
                             then fold (\<lambda>k t. if k \<noteq> dst then prop_delete t k else t)
                                    matchedTargetKeys target1
                             else target1)
              in (True, target2, dst # renamed, errors2))"

definition rename_one :: "state \<Rightarrow> options \<Rightarrow> rename \<Rightarrow> rename_acc \<Rightarrow> bool \<times> rename_acc" where
  "rename_one st opts rn acc =
     (case rn_from rn of
        FromKey src \<Rightarrow> rename_literal st opts src rn acc
      | FromRegex test \<Rightarrow> rename_regex st opts test rn acc)"

fun rename_loop :: "state \<Rightarrow> options \<Rightarrow> rename list \<Rightarrow> rename_acc \<Rightarrow> bool \<times> rename_acc" where
  "rename_loop st opts [] acc = (True, acc)"
| "rename_loop st opts (rn # rns) acc =
     (case rename_one st opts rn acc of
        (ok, acc1) \<Rightarrow> if ok then rename_loop st opts rns acc1 else (False, acc1))"

definition object_rename ::
  "object_schema \<Rightarrow> props \<Rightarrow> state \<Rightarrow> options \<Rightarrow> verror list \<Rightarrow> bool \<times> props \<times> verror list" where
  "object_rename s target st opts errors =
     (case rename_loop st opts (renames s) (target, [], errors) of
        (ok, target1, renamed, errors1) \<Rightarrow> (ok, target1, errors1))"

section \<open>Dependencies: \<open>internals.dependencies\<close>\<close>

definition keysToLabels :: "object_schema \<Rightarrow> string list \<Rightarrow> string list" where
  "keysToLabels s ks = (case children s of None \<Rightarrow> ks | Some chs \<Rightarrow> map (find_label s) ks)"

text \<open>\<open>keysToLabels\<close> on a single key; a key that is \<open>null\<close> or \<open>undefined\<close> stays so.\<close>

definition keyToLabel :: "object_schema \<Rightarrow> string option \<Rightarrow> string option" where
  "keyToLabel s k = (case children s of None \<Rightarrow> k | Some chs \<Rightarrow> map_option (find_label s) k)"

type_synonym failure = "string \<times> (string \<times> ctxval) list"

definition present_peers :: "jsval \<Rightarrow> peer_path list \<Rightarrow> string list" where
  "present_peers parent ps =
     map pp_peer (filter (\<lambda>p. reach parent (pp_path p) \<noteq> Undefined) ps)"

definition missing_peers :: "jsval \<Rightarrow> peer_path list \<Rightarrow> string list" where
  "missing_peers parent ps =
     map pp_peer (filter (\<lambda>p. reach parent (pp_path p) = Undefined) ps)"

definition dep_with :: "object_schema \<Rightarrow> dependency \<Rightarrow> jsval \<Rightarrow> jsval \<Rightarrow> failure option" where
  "dep_with s dep v parent =
     (if v = Undefined then None
      else case missing_peers parent (d_peers dep) of
             [] \<Rightarrow> None
           | peer # rest \<Rightarrow>
               Some (''object.with'',
                 [(''main'', CKey (d_orig_key dep)),
                  (''mainWithLabel'', CKey (keyToLabel s (d_orig_key dep))),
                  (''peer'', CKey (Some peer)),
                  (''peerWithLabel'', CKey (keyToLabel s (Some peer)))]))"

definition dep_without :: "object_schema \<Rightarrow> dependency \<Rightarrow> jsval \<Rightarrow> jsval \<Rightarrow> failure option" where
  "dep_without s dep v parent =
     (if v = Undefined then None
      else case present_peers parent (d_peers dep) of
             [] \<Rightarrow> None
           | peer # rest \<Rightarrow>
               Some (''object.without'',
                 [(''main'', CKey (d_orig_key dep)),
                  (''mainWithLabel'', CKey (keyToLabel s (d_orig_key dep))),
                  (''peer'', CKey (Some peer)),
                  (''peerWithLabel'', CKey (keyToLabel s (Some peer)))]))"

definition dep_xor :: "object_schema \<Rightarrow> dependency \<Rightarrow> jsval \<Rightarrow> jsval \<Rightarrow> failure option" where
  "dep_xor s dep v parent =
     (let present = present_peers parent (d_peers dep) in
      if length present = 1 then None
      else
        let context = [(''peers'', CKeys (d_orig_peers dep)),
                       (''peersWithLabels'', CKeys (keysToLabels s (d_orig_peers dep)))]
        in if length present = 0 then Some (''object.missing'', context)
           else Some (''object.xor'',
                  context @ [(''present'', CKeys present),
                             (''presentWithLabels'', CKeys (keysToLabels s present))]))"

definition dep_oxor :: "object_schema \<Rightarrow> dependency \<Rightarrow> jsval \<Rightarrow> jsval \<Rightarrow> failure option" where
  "dep_oxor s dep v parent =
     (let present = present_peers parent (d_peers dep) in
      if length present = 0 \<or> length present = 1 then None
      else Some (''object.oxor'',
             [(''peers'', CKeys (d_orig_peers dep)),
              (''peersWithLabels'', CKeys (keysToLabels s (d_orig_peers dep))),
              (''present'', CKeys present),
              (''presentWithLabels'', CKeys (keysToLabels s present))]))"

definition dep_or :: "object_schema \<Rightarrow> dependency \<Rightarrow> jsval \<Rightarrow> jsval \<Rightarrow> failure option" where
  "dep_or s dep v parent =
     (if present_peers parent (d_peers dep) \<noteq> [] then None
      else Some (''object.missing'',
             [(''peers'', CKeys (d_orig_peers dep)),
              (''peersWithLabels'', CKeys (keysToLabels s (d_orig_peers dep)))]))"

definition dep_and :: "object_schema \<Rightarrow> dependency \<Rightarrow> jsval \<Rightarrow> jsval \<Rightarrow> failure option" where
  "dep_and s dep v parent =
     (let missing = missing_peers parent (d_peers dep);
          present = present_peers parent (d_peers dep);
          count = length (d_peers dep)
      in if length missing \<noteq> count \<and> length present \<noteq> count
         then Some (''object.and'',
                [(''present'', CKeys present),
                 (''presentWithLabels'', CKeys (keysToLabels s present)),
                 (''missing'', CKeys missing),
                 (''missingWithLabels'', CKeys (keysToLabels s missing))])
         else None)"

definition dep_nand :: "object_schema \<Rightarrow> dependency \<Rightarrow> jsval \<Rightarrow> jsval \<Rightarrow> failure option" where
  "dep_nand s dep v parent =
     (let present = present_peers parent (d_peers dep) in
      if length present \<noteq> length (d_peers dep) then None
      else
        let main = (case d_orig_peers dep of [] \<Rightarrow> None | m # vs \<Rightarrow> Some m);
            vals = drop 1 (d_orig_peers dep)
        in Some (''object.nand'',
             [(''main'', CKey main),
              (''mainWithLabel'', CKey (keyToLabel s main)),
              (''peers'', CKeys vals),
              (''peersWithLabels'', CKeys (keysToLabels s vals))]))"

fun dep_method ::
  "dep_type \<Rightarrow> object_schema \<Rightarrow> dependency \<Rightarrow> jsval \<Rightarrow> jsval \<Rightarrow> failure option" where
  "dep_method DWith = dep_with"
| "dep_method DWithout = dep_without"
| "dep_method DXor = dep_xor"
| "dep_method DOxor = dep_oxor"
| "dep_method DOr = dep_or"
| "dep_method DAnd = dep_and"
| "dep_method DNand = dep_nand"

text \<open>
  \<open>_dependency(type, key, peers, options)\<close>, lines 583 to 622, with the options already
  taken off the end of \<open>peers\<close>. \<open>separator\<close> is \<open>Common.default(options.separator, '.')\<close>;
  \<open>None\<close> is a falsy separator, which leaves every peer as a single segment.
  \<open>split\<close> is \<open>String.prototype.split\<close> for a separator that is a non-empty string.
\<close>

fun split_go :: "string \<Rightarrow> nat \<Rightarrow> string \<Rightarrow> string \<Rightarrow> string list" where
  "split_go sep skip cur [] = [cur]"
| "split_go sep (Suc skip) cur (c # cs) = split_go sep skip cur cs"
| "split_go sep 0 cur (c # cs) =
     (if take (length sep) (c # cs) = sep
      then cur # split_go sep (length sep - 1) [] cs
      else split_go sep 0 (cur @ [c]) cs)"

definition split :: "string \<Rightarrow> string \<Rightarrow> string list" where
  "split sep str = split_go sep 0 [] str"




text \<open>\<open>unknown(allow)\<close>, line 516: the flag is set to \<open>allow !== false\<close>.\<close>

definition object_unknown :: "object_schema \<Rightarrow> bool \<Rightarrow> object_schema" where
  "object_unknown obj allow = obj\<lparr>flag_allowUnknown := Some allow\<rparr>"

section \<open>The recursive descent validator: \<open>_base\<close>\<close>

text \<open>
  The working copy \<open>target\<close> is the property list of the value; \<open>mk_target\<close> puts it
  back under the kind of value the schema is for (a function for a schema flagged
  \<open>func\<close>, an object otherwise). Where the code hands \<open>target\<close>
  over inside \<open>ancestors\<close> it hands over the object itself, so a child sees the working
  copy as it is at that moment: the model passes the current property list.
\<close>

definition mk_target :: "bool \<Rightarrow> props \<Rightarrow> jsval" where
  "mk_target func ps = (if func then JFunc ps else JObj ps)"

record base_result =
  b_value :: jsval
  b_errors :: "verror list option"

definition finish :: "bool \<Rightarrow> props \<Rightarrow> verror list \<Rightarrow> base_result" where
  "finish func target errors =
     \<lparr>b_value = mk_target func target,
      b_errors = (if errors = [] then None else Some errors)\<rparr>"

text \<open>
  The loop over the declared children (lines 130 to 161). The boolean is \<open>False\<close> when the
  loop left through \<open>return finish()\<close>; the last component is the list \<open>strips\<close>.
\<close>

fun validate_children ::
  "bool \<Rightarrow> state \<Rightarrow> options \<Rightarrow> child list \<Rightarrow> props \<Rightarrow> verror list \<Rightarrow> string list
   \<Rightarrow> bool \<times> props \<times> verror list \<times> string list" where
  "validate_children func st opts [] target errors strips = (True, target, errors, strips)"
| "validate_children func st opts (ch # chs) target errors strips =
     (let key = c_key ch;
          item = prop_get target key;
          localState = new_state (Some key) (s_path st @ [key])
                         (mk_target func target # s_ancestors st);
          res = sn_validate (c_schema ch) item localState opts
      in case r_errors res of
           Some errs \<Rightarrow>
             if abortEarly opts then (False, target, errors @ errs, strips)
             else validate_children func st opts chs target (errors @ errs)
                    (if flag_strip (c_schema ch) then strips @ [key] else strips)
         | None \<Rightarrow>
             let strip1 = (flag_strip (c_schema ch) \<or> (r_value res = Undefined \<and> item \<noteq> Undefined));
                 target1 = (if strip1 then prop_assign target key (r_outcome res)
                            else if r_value res \<noteq> Undefined then prop_assign target key (r_value res)
                            else target);
                 strips1 = (if strip1 then strips @ [key] else strips);
                 strips2 = (if flag_strip (c_schema ch) then strips1 @ [key] else strips1)
             in validate_children func st opts chs target1 errors strips2)"

text \<open>
  Lines 126 to 166: the loop, then the deletion of the stripped keys. Every child visited
  is taken out of \<open>unprocessed\<close>.
\<close>

definition children_stage ::
  "object_schema \<Rightarrow> state \<Rightarrow> options \<Rightarrow> props \<Rightarrow> verror list \<Rightarrow> string list
   \<Rightarrow> bool \<times> props \<times> verror list \<times> string list" where
  "children_stage s st opts target errors unprocessed =
     (case children s of
        None \<Rightarrow> (True, target, errors, unprocessed)
      | Some chs \<Rightarrow>
          (case validate_children (flag_func s) st opts chs target errors [] of
             (ok, target1, errors1, strips) \<Rightarrow>
               if ok
               then (True, fold (\<lambda>key t. prop_delete t key) strips target1, errors1,
                     fold (\<lambda>ch u. removeAll (c_key ch) u) chs unprocessed)
               else (False, target1, errors1, unprocessed)))"

text \<open>A property name as a string value, when a pattern schema is matched against it.\<close>

definition key_units :: "string \<Rightarrow> jsstring" where
  "key_units key = map (\<lambda>c. word_of_nat (of_char c)) key"

definition pattern_matches :: "pattern \<Rightarrow> string \<Rightarrow> state \<Rightarrow> options \<Rightarrow> bool" where
  "pattern_matches p key st opts =
     (case p_matcher p of
        Regex test \<Rightarrow> test key
      | KeySchema sch \<Rightarrow> schema_match sch (JStr (key_units key)) st (opts\<lparr>abortEarly := True\<rparr>))"

text \<open>The inner loop over the patterns for one unprocessed key (lines 177 to 197). The key
  is an own key of the working copy, so the write of line 195 is a plain write.\<close>

fun match_patterns ::
  "bool \<Rightarrow> state \<Rightarrow> options \<Rightarrow> string \<Rightarrow> jsval \<Rightarrow> pattern list \<Rightarrow> props \<Rightarrow> verror list
   \<Rightarrow> string list \<Rightarrow> bool \<times> props \<times> verror list \<times> string list" where
  "match_patterns func st opts key item [] target errors unprocessed =
     (True, target, errors, unprocessed)"
| "match_patterns func st opts key item (p # ps) target errors unprocessed =
     (if pattern_matches p key st opts then
        let localState = new_state (Some key) (s_path st @ [key]) [mk_target func target];
            res = sn_validate (p_rule p) item localState opts
        in case r_errors res of
             Some errs \<Rightarrow>
               if abortEarly opts then (False, target, errors @ errs, removeAll key unprocessed)
               else match_patterns func st opts key item ps
                      (prop_set target key (r_value res)) (errors @ errs)
                      (removeAll key unprocessed)
           | None \<Rightarrow>
               match_patterns func st opts key item ps
                 (prop_set target key (r_value res)) errors (removeAll key unprocessed)
      else match_patterns func st opts key item ps target errors unprocessed)"

text \<open>The outer loop over the unprocessed keys (lines 173 to 198); \<open>keys\<close> are the keys
  still to visit.\<close>

fun validate_patterns ::
  "bool \<Rightarrow> state \<Rightarrow> options \<Rightarrow> pattern list \<Rightarrow> string list \<Rightarrow> props \<Rightarrow> verror list
   \<Rightarrow> string list \<Rightarrow> bool \<times> props \<times> verror list \<times> string list" where
  "validate_patterns func st opts pats [] target errors unprocessed =
     (True, target, errors, unprocessed)"
| "validate_patterns func st opts pats (key # keys) target errors unprocessed =
     (case match_patterns func st opts key (prop_get target key) pats target errors unprocessed of
        (ok, target1, errors1, unprocessed1) \<Rightarrow>
          if ok then validate_patterns func st opts pats keys target1 errors1 unprocessed1
          else (False, target1, errors1, unprocessed1))"

definition patterns_stage ::
  "object_schema \<Rightarrow> state \<Rightarrow> options \<Rightarrow> props \<Rightarrow> verror list \<Rightarrow> string list
   \<Rightarrow> bool \<times> props \<times> verror list \<times> string list" where
  "patterns_stage s st opts target errors unprocessed =
     (if unprocessed \<noteq> [] \<and> patterns s \<noteq> []
      then validate_patterns (flag_func s) st opts (patterns s) unprocessed target errors unprocessed
      else (True, target, errors, unprocessed))"

text \<open>Lines 212 to 220: dropping unknown keys, or exempting functions.\<close>

fun strip_unknown_keys ::
  "bool \<Rightarrow> string list \<Rightarrow> props \<Rightarrow> string list \<Rightarrow> props \<times> string list" where
  "strip_unknown_keys strip [] target unprocessed = (target, unprocessed)"
| "strip_unknown_keys strip (key # keys) target unprocessed =
     (if strip
      then strip_unknown_keys strip keys (prop_delete target key) (removeAll key unprocessed)
      else if typeof (prop_get target key) = TFunction
      then strip_unknown_keys strip keys target (removeAll key unprocessed)
      else strip_unknown_keys strip keys target unprocessed)"

definition unknown_error :: "state \<Rightarrow> options \<Rightarrow> props \<Rightarrow> string \<Rightarrow> verror" where
  "unknown_error st opts target unprocessedKey =
     createError ''object.allowUnknown''
       [(''child'', CKey (Some unprocessedKey)), (''value'', CValue (prop_get target unprocessedKey))]
       (new_state (Some unprocessedKey) (s_path st @ [unprocessedKey]) []) opts"

text \<open>Lines 201 to 230.\<close>

definition unknown_stage ::
  "object_schema \<Rightarrow> state \<Rightarrow> options \<Rightarrow> props \<Rightarrow> verror list \<Rightarrow> string list
   \<Rightarrow> props \<times> verror list" where
  "unknown_stage s st opts target errors unprocessed =
     (if unprocessed \<noteq> [] \<and> (children s \<noteq> None \<or> patterns s \<noteq> []) then
        (case (if (stripUnknown opts \<noteq> StripOff \<and> flag_allowUnknown s \<noteq> Some True)
                  \<or> skipFunctions opts
               then strip_unknown_keys
                      (case stripUnknown opts of
                         StripOff \<Rightarrow> False
                       | StripAll \<Rightarrow> True
                       | StripOnly arrays objects \<Rightarrow> objects)
                      unprocessed target unprocessed
               else (target, unprocessed)) of
           (target1, unprocessed1) \<Rightarrow>
             let forbidUnknown = (\<not> Common_default (flag_allowUnknown s) (allowUnknown opts))
             in if forbidUnknown
                then (target1, errors @ map (unknown_error st opts target1) unprocessed1)
                else (target1, errors))
      else (target, errors))"

text \<open>Lines 234 to 247; the result is the error list when the loop ends or returns.\<close>

fun validate_dependencies ::
  "object_schema \<Rightarrow> state \<Rightarrow> options \<Rightarrow> jsval \<Rightarrow> dependency list \<Rightarrow> verror list
   \<Rightarrow> verror list" where
  "validate_dependencies s st opts target [] errors = errors"
| "validate_dependencies s st opts target (dep # deps) errors =
     (let keyValue = (case d_key dep of None \<Rightarrow> Null | Some key \<Rightarrow> reach target key)
      in case dep_method (d_type dep) s dep keyValue target of
           None \<Rightarrow> validate_dependencies s st opts target deps errors
         | Some (code, ctx) \<Rightarrow>
             let localState =
                   (case d_key dep of
                      Some key \<Rightarrow>
                        new_state (if key = [] then None else Some (last key)) (s_path st @ key) []
                    | None \<Rightarrow> new_state None (s_path st) []);
                 errors1 = errors @ [createError code ctx localState opts]
             in if abortEarly opts then errors1
                else validate_dependencies s st opts target deps errors1)"

text \<open>
  \<open>_base(value, state, options)\<close>. A type error is returned as the single error the code
  builds; every other exit goes through \<open>finish\<close>.
\<close>

definition object_base :: "object_schema \<Rightarrow> jsval \<Rightarrow> state \<Rightarrow> options \<Rightarrow> base_result" where
  "object_base s v st opts =
     (let func = flag_func s in
      if falsy v \<or> typeof v \<noteq> (if func then TFunction else TObject) \<or> isArray v then
        \<lparr>b_value = v,
         b_errors = Some [createError (if func then ''function.base'' else ''object.base'')
                            [(''value'', CValue v)] st opts]\<rparr>
      else if renames s = [] \<and> dependencies s = [] \<and> children s = None \<and> patterns s = [] then
        \<lparr>b_value = v, b_errors = None\<rparr>
      else
        case object_rename s (shallow_copy (own_props v)) st opts [] of
          (ok, target, errors) \<Rightarrow>
            if \<not> ok then finish func target errors
            else if children s = None \<and> patterns s = [] \<and> dependencies s = [] then
              finish func target errors
            else
              case children_stage s st opts target errors (Object_keys target) of
                (ok1, target1, errors1, unprocessed1) \<Rightarrow>
                  if \<not> ok1 then finish func target1 errors1
                  else
                    case patterns_stage s st opts target1 errors1 unprocessed1 of
                      (ok2, target2, errors2, unprocessed2) \<Rightarrow>
                        if \<not> ok2 then finish func target2 errors2
                        else
                          case unknown_stage s st opts target2 errors2 unprocessed2 of
                            (target3, errors3) \<Rightarrow>
                              finish func target3
                                (validate_dependencies s st opts (mk_target func target3)
                                   (dependencies s) errors3))"

section \<open>Composing the children: \<open>keys\<close>\<close>

text \<open>
  Modelled from the spec: the dependency graph that \<open>keys\<close> fills, \<open>Topo\<close> of the
  \<^verbatim>\<open>@hapi/topo\<close> package, is not under src/. The spec (4.1) says that each field is
  inserted into a dependency graph where field X is constrained to come after every field
  whose key is a reference root reachable from X's schema. An item records the order of
  insertion \<open>seq\<close>, the groups it must come after, its own group, and the node; the only
  use \<open>keys\<close> makes of it is \<open>topo.add(node, { after, group })\<close> and \<open>topo.nodes\<close>.
  Every \<open>add\<close> sorts all the items again and fails when some item cannot be placed (a
  cycle of references); items that no reference constrains stay in the order of insertion.
\<close>

record topo_item =
  t_seq :: nat
  t_after :: "string list"
  t_group :: string
  t_node :: child

text \<open>The items that have to come before the item numbered \<open>c\<close>: those whose group is
  named in its \<open>after\<close> list. The entry is missing when there is none.\<close>

definition topo_ancestors :: "topo_item list \<Rightarrow> nat \<Rightarrow> nat list option" where
  "topo_ancestors items c =
     (case concat (map (\<lambda>it. map t_seq (filter (\<lambda>n. t_group n \<in> set (t_after it)) items))
                     (filter (\<lambda>it. t_seq it = c) items)) of
        [] \<Rightarrow> None
      | a # as \<Rightarrow> Some (a # as))"

text \<open>
  The sort visits the sequence numbers in order. A number without ancestors is emitted
  at once; otherwise the first number not yet emitted whose ancestors are all emitted is
  emitted, if there is one. Looking at a number during that search gives it an (empty)
  ancestor entry.
\<close>

fun find_next ::
  "nat list \<Rightarrow> (nat \<Rightarrow> nat list option) \<Rightarrow> nat list \<Rightarrow> (nat \<Rightarrow> nat list option) \<times> nat option" where
  "find_next [] ancestors emitted = (ancestors, None)"
| "find_next (j # js) ancestors emitted =
     (if j \<in> set emitted then find_next js ancestors emitted
      else
        let ancestors1 = (case ancestors j of None \<Rightarrow> ancestors(j \<mapsto> []) | Some l \<Rightarrow> ancestors) in
        if list_all (\<lambda>a. a \<in> set emitted) (case ancestors1 j of None \<Rightarrow> [] | Some l \<Rightarrow> l)
        then (ancestors1, Some j)
        else find_next js ancestors1 emitted)"

fun sort_steps ::
  "nat \<Rightarrow> nat list \<Rightarrow> (nat \<Rightarrow> nat list option) \<Rightarrow> nat list \<Rightarrow> nat list" where
  "sort_steps n [] ancestors emitted = emitted"
| "sort_steps n (i # is) ancestors emitted =
     (case ancestors i of
        None \<Rightarrow> sort_steps n is ancestors (emitted @ [i])
      | Some l \<Rightarrow>
          (case find_next [0..<n] ancestors emitted of
             (ancestors1, None) \<Rightarrow> sort_steps n is ancestors1 emitted
           | (ancestors1, Some next) \<Rightarrow> sort_steps n is ancestors1 (emitted @ [next])))"

definition topo_sort :: "topo_item list \<Rightarrow> topo_item list option" where
  "topo_sort items =
     (let n = length items;
          emitted = sort_steps n [0..<n] (topo_ancestors items) []
      in if length emitted \<noteq> n then None
         else Some (concat (map (\<lambda>q. filter (\<lambda>it. t_seq it = q) items) emitted)))"

datatype build_error = BuildError (be_message: string) (be_path: "string option")

definition topo_add ::
  "topo_item list \<Rightarrow> child \<Rightarrow> string list \<Rightarrow> string \<Rightarrow> build_error + topo_item list" where
  "topo_add items node after grp =
     (case topo_sort (items @ [\<lparr>t_seq = length items, t_after = after, t_group = grp,
                                t_node = node\<rparr>]) of
        None \<Rightarrow> Inl (BuildError ''created a dependencies error'' None)
      | Some items1 \<Rightarrow> Inr items1)"

text \<open>
  \<open>keys(schema)\<close>, lines 358 to 409. The field map is the list of its entries in the order
  of \<open>Object.keys\<close>; \<open>None\<close> is a missing (\<open>null\<close> or \<open>undefined\<close>) argument. \<open>cast\<close> stands
  for \<open>Cast.schema(this._currentJoi, child)\<close> of \<^verbatim>\<open>lib/cast.js\<close>, which is not under
  src/; it may throw. The reference registry of the object itself (\<open>obj._refs\<close>) is not part
  of the model.
\<close>

text \<open>Lines 377 to 386: the children that the field map does not declare again.\<close>

fun add_existing ::
  "string list \<Rightarrow> child list \<Rightarrow> topo_item list \<Rightarrow> build_error + topo_item list" where
  "add_existing new_keys [] topo = Inr topo"
| "add_existing new_keys (ch # chs) topo =
     (if c_key ch \<notin> set new_keys
      then (case topo_add topo ch (refs_roots (c_schema ch)) (c_key ch) of
              Inl err \<Rightarrow> Inl err
            | Inr topo1 \<Rightarrow> add_existing new_keys chs topo1)
      else add_existing new_keys chs topo)"

text \<open>The handler of lines 395 to 404: the key goes in front of the path of the error.\<close>

definition prefix_path :: "string \<Rightarrow> build_error \<Rightarrow> build_error" where
  "prefix_path key err =
     (case be_path err of
        Some p \<Rightarrow> BuildError (be_message err) (Some (key @ ''.'' @ p))
      | None \<Rightarrow> BuildError (be_message err) (Some key))"

text \<open>Lines 388 to 405: the fields of the field map.\<close>

fun add_fields ::
  "('raw \<Rightarrow> build_error + schema_node) \<Rightarrow> (string \<times> 'raw) list \<Rightarrow> topo_item list
   \<Rightarrow> build_error + topo_item list" where
  "add_fields cast [] topo = Inr topo"
| "add_fields cast ((key, decl) # fieldmap) topo =
     (case cast decl of
        Inl err \<Rightarrow> Inl (prefix_path key err)
      | Inr sch \<Rightarrow>
          (case topo_add topo \<lparr>c_key = key, c_schema = sch\<rparr> (refs_roots sch) key of
             Inl err \<Rightarrow> Inl (prefix_path key err)
           | Inr topo1 \<Rightarrow> add_fields cast fieldmap topo1))"

definition object_keys ::
  "('raw \<Rightarrow> build_error + schema_node) \<Rightarrow> object_schema \<Rightarrow> (string \<times> 'raw) list option
   \<Rightarrow> build_error + object_schema" where
  "object_keys cast obj schema =
     (case schema of
        None \<Rightarrow> Inr (obj\<lparr>children := None\<rparr>)
      | Some fieldmap \<Rightarrow>
          if fieldmap = [] then Inr (obj\<lparr>children := Some []\<rparr>)
          else
            case add_existing (map fst fieldmap)
                   (case children obj of None \<Rightarrow> [] | Some chs \<Rightarrow> chs) [] of
              Inl err \<Rightarrow> Inl err
            | Inr topo \<Rightarrow>
                (case add_fields cast fieldmap topo of
                   Inl err \<Rightarrow> Inl err
                 | Inr topo1 \<Rightarrow> Inr (obj\<lparr>children := Some (map t_node topo1)\<rparr>)))"

section \<open>The string schema: coercion and the length rule\<close>

text \<open>
  \<open>_coerce\<close> of \<^verbatim>\<open>lib/types/string/index.js\<close> calls into the language and into Node:
  \<open>normalize\<close>, \<open>toLocaleUpperCase\<close>, \<open>toLocaleLowerCase\<close>, \<open>trim\<close>, \<open>new Date\<close> with
  \<open>toISOString\<close>, \<open>Buffer.byteLength\<close>, and into \<open>JoiDate._isIsoDate\<close> of
  \<^verbatim>\<open>lib/types/date.js\<close>. None of them is under src/; they are the parameters of the
  model. \<open>js_toISOString\<close> is \<open>None\<close> when the date is invalid.
\<close>

record js_env =
  js_normalize :: "string \<Rightarrow> jsstring \<Rightarrow> jsstring"
  js_toLocaleUpperCase :: "jsstring \<Rightarrow> jsstring"
  js_toLocaleLowerCase :: "jsstring \<Rightarrow> jsstring"
  js_trim :: "jsstring \<Rightarrow> jsstring"
  js_isIsoDate :: "jsstring \<Rightarrow> bool"
  js_toISOString :: "jsstring \<Rightarrow> jsstring option"
  js_byteLength :: "jsstring \<Rightarrow> string \<Rightarrow> nat"

text \<open>The limit of a length rule is a number or a reference.\<close>

datatype limit = Limit nat | LimitRef "string list"

record length_args =
  la_limit :: limit
  la_encoding :: "string option"

text \<open>
  What \<open>_coerce\<close> reads of the schema: the unique rules \<open>normalize\<close> (its form), \<open>case\<close>
  (its direction), \<open>trim\<close> (enabled), \<open>hex\<close> (byteAligned), \<open>isoDate\<close> and \<open>max\<close>, the
  replacements (each the function \<open>value.replace(pattern, replacement)\<close>) and the
  \<open>truncate\<close> flag.
\<close>

record string_schema =
  rule_normalize :: "string option"
  rule_case :: "string option"
  rule_trim :: "bool option"
  inner_replacements :: "(jsstring \<Rightarrow> jsstring) list option"
  rule_hex :: "bool option"
  rule_isoDate :: bool
  flag_truncate :: bool
  rule_max :: "length_args option"

text \<open>\<open>value.slice(0, limit)\<close>: the first \<open>limit\<close> code units. A reference is not a
  number, the slice it gives is empty.\<close>

definition slice0 :: "jsstring \<Rightarrow> limit \<Rightarrow> jsstring" where
  "slice0 v l = (case l of Limit n \<Rightarrow> take n v | LimitRef r \<Rightarrow> [])"

text \<open>Lines 74 to 103, up to the padding of an odd hexadecimal string.\<close>

definition coerce_steps :: "js_env \<Rightarrow> string_schema \<Rightarrow> jsstring \<Rightarrow> jsstring" where
  "coerce_steps env s v =
     (let v1 = (case rule_normalize s of None \<Rightarrow> v | Some form \<Rightarrow> js_normalize env form v);
          v2 = (case rule_case s of
                  None \<Rightarrow> v1
                | Some direction \<Rightarrow>
                    if direction = ''upper'' then js_toLocaleUpperCase env v1
                    else js_toLocaleLowerCase env v1);
          v3 = (case rule_trim s of
                  None \<Rightarrow> v2
                | Some enabled \<Rightarrow> if enabled then js_trim env v2 else v2);
          v4 = (case inner_replacements s of
                  None \<Rightarrow> v3
                | Some rs \<Rightarrow> fold (\<lambda>replacement x. replacement x) rs v3)
      in case rule_hex s of
           None \<Rightarrow> v4
         | Some byteAligned \<Rightarrow>
             if byteAligned \<and> length v4 mod 2 \<noteq> 0 then 48 # v4 else v4)"

text \<open>Lines 105 to 118: \<open>None\<close> when the value is not a valid ISO date.\<close>

definition coerce_isoDate :: "js_env \<Rightarrow> string_schema \<Rightarrow> jsstring \<Rightarrow> jsstring option" where
  "coerce_isoDate env s v =
     (if rule_isoDate s
      then (if js_isIsoDate env v then js_toISOString env v else None)
      else Some v)"

definition string_coerce ::
  "js_env \<Rightarrow> string_schema \<Rightarrow> jsval \<Rightarrow> state \<Rightarrow> options \<Rightarrow> base_result" where
  "string_coerce env s v st opts =
     (case v of
        JStr v0 \<Rightarrow>
          (let v5 = coerce_steps env s v0 in
           case coerce_isoDate env s v5 of
             None \<Rightarrow>
               \<lparr>b_value = JStr v5,
                b_errors = Some [createError ''string.isoDate'' [(''value'', CValue (JStr v5))] st opts]\<rparr>
           | Some v6 \<Rightarrow>
               \<lparr>b_value = JStr (if flag_truncate s
                                 then (case rule_max s of
                                         None \<Rightarrow> v6
                                       | Some rule \<Rightarrow> slice0 v6 (la_limit rule))
                                 else v6),
                b_errors = None\<rparr>)
      | _ \<Rightarrow> \<lparr>b_value = v, b_errors = None\<rparr>)"

text \<open>
  Modelled from the spec: \<open>Common.compare(a, b, operator)\<close> of \<^verbatim>\<open>lib/common.js\<close> is not
  under src/; the builders \<open>length\<close>, \<open>max\<close> and \<open>min\<close> pass the operators \<open>=\<close>, \<open><=\<close>
  and \<open>>=\<close>.
\<close>

datatype operator = OpEq | OpLe | OpGe

fun Common_compare :: "nat \<Rightarrow> nat \<Rightarrow> operator \<Rightarrow> bool" where
  "Common_compare a b OpEq = (a = b)"
| "Common_compare a b OpLe = (a \<le> b)"
| "Common_compare a b OpGe = (a \<ge> b)"

text \<open>The rule \<open>length\<close> (lines 635 to 643), with the limit resolved to a number:
  the value when it passes, the error otherwise.\<close>

definition string_rule_length ::
  "js_env \<Rightarrow> state \<Rightarrow> options \<Rightarrow> jsstring \<Rightarrow> nat \<Rightarrow> string option \<Rightarrow> string \<Rightarrow> operator
   \<Rightarrow> verror + jsstring" where
  "string_rule_length env st opts v lim encoding alias operator =
     (let len = (case encoding of None \<Rightarrow> length v | Some enc \<Rightarrow> js_byteLength env v enc)
      in if Common_compare len lim operator then Inr v
         else Inl (createError (''string.'' @ alias)
                     [(''limit'', CValue (JNum (int lim))), (''value'', CValue (JStr v)),
                      (''encoding'', CKey encoding)] st opts))"

text \<open>The results that the rules of the matching patterns return for one key, in the
  order of the patterns; each rule sees the working copy as the writes before it left it.\<close>

fun pattern_results ::
  "bool \<Rightarrow> state \<Rightarrow> options \<Rightarrow> string \<Rightarrow> jsval \<Rightarrow> pattern list \<Rightarrow> props \<Rightarrow> result list" where
  "pattern_results f st opts key item [] t = []"
| "pattern_results f st opts key item (p # ps) t =
     (if pattern_matches p key st opts
      then (let res = sn_validate (p_rule p) item
                        (new_state (Some key) (s_path st @ [key]) [mk_target f t]) opts
            in res # pattern_results f st opts key item ps (prop_set t key (r_value res)))
      else pattern_results f st opts key item ps t)"

definition errors_of :: "result \<Rightarrow> verror list" where
  "errors_of r = (case r_errors r of None \<Rightarrow> [] | Some errs \<Rightarrow> errs)"

text \<open>Notions for the ordering that \<open>keys\<close> produces. \<open>emitted_after\<close>: every number in
  the list comes after the numbers it has as ancestors. \<open>seqs_ok\<close>: the items carry the
  sequence numbers from 0 up, each once. \<open>after_ok\<close>: every item comes after the items
  whose group its \<open>after\<close> list names. \<open>keyed\<close>: the items are those that \<open>keys\<close> builds,
  grouped by the key of their child and coming after the reference roots of its schema.\<close>

definition ancestor_list :: "(nat \<Rightarrow> nat list option) \<Rightarrow> nat \<Rightarrow> nat list" where
  "ancestor_list anc c = (case anc c of None \<Rightarrow> [] | Some l \<Rightarrow> l)"

definition emitted_after :: "(nat \<Rightarrow> nat list option) \<Rightarrow> nat list \<Rightarrow> bool" where
  "emitted_after anc es =
     (\<forall>xs c ys. es = xs @ c # ys \<longrightarrow> set (ancestor_list anc c) \<subseteq> set xs)"

text \<open>Looking at a number during the search only adds an empty entry.\<close>

definition anc_inv :: "(nat \<Rightarrow> nat list option) \<Rightarrow> (nat \<Rightarrow> nat list option) \<Rightarrow> bool" where
  "anc_inv anc0 anc = (\<forall>k. anc k = anc0 k \<or> (anc0 k = None \<and> anc k = Some []))"

definition seqs_ok :: "topo_item list \<Rightarrow> bool" where
  "seqs_ok items = (distinct (map t_seq items) \<and> set (map t_seq items) = {0..<length items})"

definition after_ok :: "topo_item list \<Rightarrow> bool" where
  "after_ok items =
     (\<forall>xs y ys. items = xs @ y # ys \<longrightarrow>
        (\<forall>x \<in> set items. t_group x \<in> set (t_after y) \<longrightarrow> x \<in> set xs))"

definition keyed :: "topo_item list \<Rightarrow> bool" where
  "keyed items =
     (\<forall>it \<in> set items. t_group it = c_key (t_node it)
                       \<and> t_after it = refs_roots (c_schema (t_node it)))"

text \<open>The children that a field map leaves alone, and the children that it declares
  (its entries, cast, in its order).\<close>

definition untouched :: "object_schema \<Rightarrow> (string \<times> 'raw) list \<Rightarrow> child list" where
  "untouched obj fieldmap =
     filter (\<lambda>ch. c_key ch \<notin> set (map fst fieldmap))
       (case children obj of None \<Rightarrow> [] | Some chs \<Rightarrow> chs)"

definition declared ::
  "('raw \<Rightarrow> build_error + schema_node) \<Rightarrow> (string \<times> 'raw) list \<Rightarrow> child list" where
  "declared cast fieldmap =
     concat (map (\<lambda>(key, decl). case cast decl of
                                   Inl err \<Rightarrow> []
                                 | Inr sch \<Rightarrow> [\<lparr>c_key = key, c_schema = sch\<rparr>]) fieldmap)"

text \<open>No child of the list has a reference root that is the key of a child of the list.\<close>

definition edge_free :: "child list \<Rightarrow> bool" where
  "edge_free cs = (\<forall>x \<in> set cs. \<forall>y \<in> set cs. c_key x \<notin> set (refs_roots (c_schema y)))"

section \<open>Schemas used in the examples\<close>

text \<open>The object schema \<open>Joi.object()\<close> as the constructor leaves it (lines 23 to 31);
  labels are the keys themselves.\<close>

definition empty_object :: object_schema where
  "empty_object =
     \<lparr>children = None, renames = [], dependencies = [], patterns = [],
      flag_func = False, flag_allowUnknown = None, find_label = (\<lambda>k. k)\<rparr>"

text \<open>A child that accepts every value and returns it as it is, one that rejects every
  value with one error of the given code, and one that accepts every value and replaces
  it.\<close>

definition accepting :: "string list \<Rightarrow> schema_node" where
  "accepting roots =
     \<lparr>sn_validate = (\<lambda>v st opts. \<lparr>r_value = v, r_errors = None, r_outcome = v\<rparr>),
      flag_strip = False, refs_roots = roots\<rparr>"

definition rejecting :: "string \<Rightarrow> schema_node" where
  "rejecting c =
     \<lparr>sn_validate = (\<lambda>v st opts.
        \<lparr>r_value = v, r_errors = Some [createError c [(''value'', CValue v)] st opts],
         r_outcome = v\<rparr>),
      flag_strip = False, refs_roots = []\<rparr>"

definition replacing :: "jsval \<Rightarrow> schema_node" where
  "replacing w =
     \<lparr>sn_validate = (\<lambda>v st opts. \<lparr>r_value = w, r_errors = None, r_outcome = w\<rparr>),
      flag_strip = False, refs_roots = []\<rparr>"

text \<open>A child that rejects every value with one error of the given code and gives the
  given value as its output.\<close>

definition rejecting_as :: "string \<Rightarrow> jsval \<Rightarrow> schema_node" where
  "rejecting_as c w =
     \<lparr>sn_validate = (\<lambda>v st opts.
        \<lparr>r_value = w, r_errors = Some [createError c [(''value'', CValue v)] st opts],
         r_outcome = w\<rparr>),
      flag_strip = False, refs_roots = []\<rparr>"

definition default_options :: options where
  "default_options =
     \<lparr>abortEarly = True, convert = True, allowUnknown = False, stripUnknown = StripOff,
      skipFunctions = False\<rparr>"

text \<open>An environment for the examples on strings made of the code unit 233 only: nothing
  is normalised, cased or trimmed, no value is an ISO date, and every code unit takes two
  bytes in every encoding.\<close>

definition two_byte_env :: js_env where
  "two_byte_env =
     \<lparr>js_normalize = (\<lambda>form v. v), js_toLocaleUpperCase = (\<lambda>v. v),
      js_toLocaleLowerCase = (\<lambda>v. v), js_trim = (\<lambda>v. v), js_isIsoDate = (\<lambda>v. False),
      js_toISOString = (\<lambda>v. None), js_byteLength = (\<lambda>v enc. 2 * length v)\<rparr>"

text \<open>The string schema \<open>Joi.string()\<close> with no rule and no flag set.\<close>

definition empty_string :: string_schema where
  "empty_string =
     \<lparr>rule_normalize = None, rule_case = None, rule_trim = None, inner_replacements = None,
      rule_hex = None, rule_isoDate = False, flag_truncate = False, rule_max = None\<rparr>"

definition root_state :: state where
  "root_state = \<lparr>s_key = None, s_path = [], s_ancestors = []\<rparr>"

section \<open>Auxiliary notions for the proofs\<close>

text \<open>The keys of the declared children, and what one round of the loop over the
  children may change.\<close>

definition declared_keys :: "object_schema \<Rightarrow> string list" where
  "declared_keys s = (case children s of None \<Rightarrow> [] | Some chs \<Rightarrow> map c_key chs)"

text \<open>The constant \<open>stripUnknown\<close> of lines 207 to 209: whether the option asks for
  the unknown keys of an object to be dropped.\<close>

definition strips_keys :: "options \<Rightarrow> bool" where
  "strips_keys opts =
     (case stripUnknown opts of
        StripOff \<Rightarrow> False
      | StripAll \<Rightarrow> True
      | StripOnly arrays objects \<Rightarrow> objects)"

definition child_step ::
  "child \<Rightarrow> props \<Rightarrow> verror list \<Rightarrow> string list \<Rightarrow> props \<Rightarrow> verror list \<Rightarrow> string list \<Rightarrow> bool" where
  "child_step ch t e strips t1 e1 s1 =
     ((\<forall>k. k \<noteq> c_key ch \<longrightarrow> prop_get t1 k = prop_get t k \<and> hasOwnProperty t1 k = hasOwnProperty t k)
      \<and> (\<exists>post. e1 = e @ post)
      \<and> set strips \<subseteq> set s1 \<and> set s1 \<subseteq> set strips \<union> {c_key ch}
      \<and> (flag_strip (c_schema ch) \<longrightarrow> c_key ch \<in> set s1)
      \<and> (distinct (map fst t) \<longrightarrow> distinct (map fst t1)))"

section \<open>Properties of the property lists\<close>

lemma prop_get_set: "prop_get (prop_set ps k v) k' = (if k' = k then v else prop_get ps k')"
  by (simp add: prop_get_def prop_set_def update_conv')

lemma prop_get_delete:
  "prop_get (prop_delete ps k) k' = (if k' = k then Undefined else prop_get ps k')"
  by (simp add: prop_get_def prop_delete_def delete_conv')

lemma hasOwn_set: "hasOwnProperty (prop_set ps k v) k' = (k' = k \<or> hasOwnProperty ps k')"
  by (auto simp: hasOwnProperty_def prop_set_def dom_update)

lemma hasOwn_delete: "hasOwnProperty (prop_delete ps k) k' = (k' \<noteq> k \<and> hasOwnProperty ps k')"
  by (auto simp: hasOwnProperty_def prop_delete_def AList.delete_eq)

lemma prop_get_assign:
  "prop_get (prop_assign ps k v) k' =
     (if k' = k \<and> k \<noteq> ''__proto__'' then v else prop_get ps k')"
  by (simp add: prop_assign_def prop_get_set)

lemma hasOwn_assign:
  "hasOwnProperty (prop_assign ps k v) k' =
     (k' = k \<and> k \<noteq> ''__proto__'' \<or> hasOwnProperty ps k')"
  by (auto simp: prop_assign_def hasOwn_set)

lemma shallow_copy_keys:
  "set (Object_keys (shallow_copy ps)) = set (Object_keys ps) - {''__proto__''}"
  by (auto simp: Object_keys_def shallow_copy_def)

lemma shallow_copy_distinct:
  "distinct (map fst ps) \<Longrightarrow> distinct (map fst (shallow_copy ps))"
  by (simp add: shallow_copy_def distinct_map_filter)

lemma shallow_copy_get:
  "k \<noteq> ''__proto__'' \<Longrightarrow> prop_get (shallow_copy ps) k = prop_get ps k"
  by (induction ps) (auto simp: shallow_copy_def prop_get_def)

lemma shallow_copy_same:
  "''__proto__'' \<notin> set (Object_keys ps) \<Longrightarrow> shallow_copy ps = ps"
  by (induction ps) (auto simp: shallow_copy_def Object_keys_def)

lemma mk_target_gate:
  "\<not> falsy (mk_target f ps)"
  "typeof (mk_target f ps) = (if f then TFunction else TObject)"
  "\<not> isArray (mk_target f ps)"
  "own_props (mk_target f ps) = ps"
  by (simp_all add: mk_target_def)

section \<open>Renaming with \<open>alias\<close> and \<open>override\<close>\<close>

lemma not_hasOwn_get: "\<not> hasOwnProperty ps k \<Longrightarrow> prop_get ps k = Undefined"
  by (simp add: hasOwnProperty_def prop_get_def map_of_eq_None_iff [THEN iffD2] image_iff)

text \<open>
  The test \<open>renamed[rename.to]\<close> of lines 649 and 659 reads a plain object literal, so a
  target named like a member of \<open>Object.prototype\<close> counts as renamed before any directive
  ran, while the test of line 657 on the working copy asks for an own property: a single
  directive towards \<open>constructor\<close> without \<open>multiple\<close> is reported as a second rename.
\<close>

lemma rename_to_inherited_name:
  "object_base
     (empty_object\<lparr>renames := [\<lparr>rn_from = FromKey ''a'', rn_to = ''constructor'',
         rn_options = \<lparr>opt_alias = True, opt_multiple = False, opt_override = True,
                        opt_ignoreUndefined = False\<rparr>\<rparr>]\<rparr>)
     (JObj [(''a'', JNum 1), (''constructor'', JNum 2)]) root_state default_options =
   \<lparr>b_value = JObj [(''a'', JNum 1), (''constructor'', JNum 2)],
    b_errors = Some [\<lparr>e_code = ''object.rename.multiple'',
                      e_context = [(''from'', CKey (Some ''a'')), (''to'', CKey (Some ''constructor''))],
                      e_path = []\<rparr>]\<rparr>"
  by (simp add: object_base_def empty_object_def default_options_def root_state_def
      shallow_copy_def object_rename_def rename_one_def rename_literal_def renamed_truthy_def
      Object_prototype_keys_def prop_get_def finish_def mk_target_def createError_def Let_def)

text \<open>
  Claim C7 as it is written fails on a schema with two directives
  \<open>rename('x', 't', { alias: true, override: true })\<close> and
  \<open>rename('s', 't', { alias: true, override: true })\<close> and the value
  \<open>{x: 1, s: 2, t: 3}\<close>, which has the source \<open>s\<close> and the target \<open>t\<close> of the second
  directive: \<open>t\<close> was renamed to before and neither directive has \<open>multiple\<close>, so lines 648
  to 654 report \<open>object.rename.multiple\<close> for the second one and, under the default
  options, return; \<open>t\<close> holds 1, not the value 2 of \<open>s\<close>.
\<close>

theorem rename_second_directive_counterexample:
  "object_base
     (empty_object\<lparr>renames :=
        [\<lparr>rn_from = FromKey ''x'', rn_to = ''t'',
          rn_options = \<lparr>opt_alias = True, opt_multiple = False, opt_override = True,
                         opt_ignoreUndefined = False\<rparr>\<rparr>,
         \<lparr>rn_from = FromKey ''s'', rn_to = ''t'',
          rn_options = \<lparr>opt_alias = True, opt_multiple = False, opt_override = True,
                         opt_ignoreUndefined = False\<rparr>\<rparr>]\<rparr>)
     (JObj [(''x'', JNum 1), (''s'', JNum 2), (''t'', JNum 3)]) root_state default_options =
   \<lparr>b_value = JObj [(''x'', JNum 1), (''s'', JNum 2), (''t'', JNum 1)],
    b_errors = Some [\<lparr>e_code = ''object.rename.multiple'',
                      e_context = [(''from'', CKey (Some ''s'')), (''to'', CKey (Some ''t''))],
                      e_path = []\<rparr>]\<rparr>"
  by (simp add: object_base_def empty_object_def default_options_def root_state_def
      shallow_copy_def object_rename_def rename_one_def rename_literal_def renamed_truthy_def
      Object_prototype_keys_def prop_get_def prop_assign_def prop_set_def hasOwnProperty_def
      finish_def mk_target_def createError_def Let_def)

text \<open>
  Claim C7, amended. Take a rename directive with a literal source and the options
  \<open>alias\<close> and \<open>override\<close>, at any round of the loop of \<open>_rename\<close>, on a working copy that
  holds a defined value under the source key and has the target key; let the directive
  have \<open>multiple\<close> or let the test \<open>renamed[rename.to]\<close> be falsy (the target was not the
  target of an earlier round and is not named like a member of \<open>Object.prototype\<close>), and
  let the target not be \<open>__proto__\<close>. Then the round succeeds and adds no error, the
  target key holds the source's value afterwards and the source key is still there with
  its value. When the schema declares this directive and nothing else, the working copy
  so changed is the value that \<open>_base\<close> returns, with no error.
\<close>

theorem rename_alias_override:
  assumes "rn_from rn = FromKey src"
    and "opt_alias (rn_options rn)" and "opt_override (rn_options rn)"
    and "prop_get target src \<noteq> Undefined" and "hasOwnProperty target (rn_to rn)"
    and "opt_multiple (rn_options rn) \<or> \<not> renamed_truthy renamed (rn_to rn)"
    and "rn_to rn \<noteq> ''__proto__''"
  shows "rename_one st opts rn (target, renamed, errors) =
           (True, prop_set target (rn_to rn) (prop_get target src), rn_to rn # renamed, errors)
       \<and> prop_get (prop_set target (rn_to rn) (prop_get target src)) (rn_to rn) = prop_get target src
       \<and> prop_get (prop_set target (rn_to rn) (prop_get target src)) src = prop_get target src
       \<and> hasOwnProperty (prop_set target (rn_to rn) (prop_get target src)) src
       \<and> (renames s = [rn] \<and> children s = None \<and> patterns s = [] \<and> dependencies s = []
            \<and> shallow_copy ps = target \<and> renamed = [] \<longrightarrow>
            object_base s (mk_target (flag_func s) ps) st opts =
              \<lparr>b_value = mk_target (flag_func s) (prop_set target (rn_to rn) (prop_get target src)),
               b_errors = None\<rparr>)"
proof -
  have r: "rename_one st opts rn (target, renamed, es) =
           (True, prop_set target (rn_to rn) (prop_get target src), rn_to rn # renamed, es)" for es
    using assms by (auto simp: rename_one_def rename_literal_def prop_assign_def Let_def)
  have g: "prop_get (prop_set target (rn_to rn) (prop_get target src)) (rn_to rn) = prop_get target src"
    "prop_get (prop_set target (rn_to rn) (prop_get target src)) src = prop_get target src"
    by (simp_all add: prop_get_set)
  have h: "hasOwnProperty (prop_set target (rn_to rn) (prop_get target src)) src"
    using assms(4) not_hasOwn_get [of target src] by (auto simp: hasOwn_set)
  have b: "object_base s (mk_target (flag_func s) ps) st opts =
              \<lparr>b_value = mk_target (flag_func s) (prop_set target (rn_to rn) (prop_get target src)),
               b_errors = None\<rparr>"
    if "renames s = [rn]" "children s = None" "patterns s = []" "dependencies s = []"
      "shallow_copy ps = target" "renamed = []"
    using that r [of "[]"]
    by (simp add: object_base_def object_rename_def mk_target_gate finish_def Let_def)
  from r [of errors] g h b show ?thesis by blast
qed

theorem rename_alias_override_witness:
  "object_base
     (empty_object\<lparr>renames := [\<lparr>rn_from = FromKey ''a'', rn_to = ''b'',
         rn_options = \<lparr>opt_alias = True, opt_multiple = False, opt_override = True,
                        opt_ignoreUndefined = False\<rparr>\<rparr>]\<rparr>)
     (JObj [(''a'', JNum 1), (''b'', JNum 2)]) root_state default_options =
   \<lparr>b_value = JObj [(''a'', JNum 1), (''b'', JNum 1)], b_errors = None\<rparr>"
proof -
  let ?rn = "\<lparr>rn_from = FromKey ''a'', rn_to = ''b'',
         rn_options = \<lparr>opt_alias = True, opt_multiple = False, opt_override = True,
                        opt_ignoreUndefined = False\<rparr>\<rparr>"
  let ?s = "empty_object\<lparr>renames := [?rn]\<rparr>"
  let ?ps = "[(''a'', JNum 1), (''b'', JNum 2)]"
  have h: "rn_from ?rn = FromKey ''a''" "opt_alias (rn_options ?rn)" "opt_override (rn_options ?rn)"
    "prop_get ?ps ''a'' \<noteq> Undefined" "hasOwnProperty ?ps (rn_to ?rn)"
    "opt_multiple (rn_options ?rn) \<or> \<not> renamed_truthy [] (rn_to ?rn)"
    "rn_to ?rn \<noteq> ''__proto__''"
    by (simp_all add: prop_get_def hasOwnProperty_def renamed_truthy_def Object_prototype_keys_def)
  have c: "renames ?s = [?rn] \<and> children ?s = None \<and> patterns ?s = [] \<and> dependencies ?s = []
            \<and> shallow_copy ?ps = ?ps \<and> ([]::string list) = []"
    by (simp add: empty_object_def shallow_copy_def)
  have m: "mk_target (flag_func ?s) t = JObj t" for t
    by (simp add: mk_target_def empty_object_def)
  note x = rename_alias_override [OF h, of root_state default_options "[]" ?s ?ps]
  note xb = x [THEN conjunct2, THEN conjunct2, THEN conjunct2, THEN conjunct2, rule_format, OF c]
  show ?thesis using xb unfolding m by (simp add: prop_set_def prop_get_def)
qed

section \<open>The \<open>xor\<close> dependency\<close>






section \<open>Lemmas about the stages of the walk\<close>

lemma fold_delete_get:
  "prop_get (fold (\<lambda>key t. prop_delete t key) ks t) k =
     (if k \<in> set ks then Undefined else prop_get t k)"
  by (induction ks arbitrary: t) (auto simp: prop_get_delete)

lemma fold_delete_hasOwn:
  "hasOwnProperty (fold (\<lambda>key t. prop_delete t key) ks t) k =
     (k \<notin> set ks \<and> hasOwnProperty t k)"
  by (induction ks arbitrary: t) (auto simp: hasOwn_delete)

lemma fold_removeAll_children:
  "fold (\<lambda>ch u. removeAll (c_key ch) u) chs u = filter (\<lambda>k. k \<notin> c_key ` set chs) u"
proof (induction chs arbitrary: u)
  case Nil
  then show ?case by simp
next
  case (Cons ch chs)
  have "removeAll (c_key ch) u = filter (\<lambda>k. k \<noteq> c_key ch) u"
    by (induction u) auto
  then show ?case using Cons by (auto intro: filter_cong)
qed

lemma distinct_prop_set: "distinct (map fst ps) \<Longrightarrow> distinct (map fst (prop_set ps k v))"
  by (simp add: prop_set_def distinct_update)

lemma distinct_prop_assign: "distinct (map fst ps) \<Longrightarrow> distinct (map fst (prop_assign ps k v))"
  by (simp add: prop_assign_def distinct_prop_set)

lemma distinct_prop_delete: "distinct (map fst ps) \<Longrightarrow> distinct (map fst (prop_delete ps k))"
  by (simp add: prop_delete_def distinct_delete)

lemma distinct_fold_delete:
  "distinct (map fst ps) \<Longrightarrow> distinct (map fst (fold (\<lambda>key t. prop_delete t key) ks ps))"
  by (induction ks arbitrary: ps) (auto simp: distinct_prop_delete)

lemma distinct_fold_delete_if:
  "distinct (map fst ps) \<Longrightarrow>
   distinct (map fst (fold (\<lambda>k t. if k \<noteq> d then prop_delete t k else t) ks ps))"
  by (induction ks arbitrary: ps) (auto simp: distinct_prop_delete)



lemma rename_one_no_abort:
  "\<not> abortEarly opts \<Longrightarrow> fst (rename_one st opts rn acc) = True"
  by (cases acc)
     (auto simp: rename_one_def rename_literal_def rename_regex_def Let_def split: rename_from.splits)

lemma rename_loop_no_abort:
  "\<not> abortEarly opts \<Longrightarrow> fst (rename_loop st opts rns acc) = True"
proof (induction rns arbitrary: acc)
  case Nil
  then show ?case by simp
next
  case (Cons rn rns)
  obtain ok acc1 where r: "rename_one st opts rn acc = (ok, acc1)" by (cases "rename_one st opts rn acc")
  with rename_one_no_abort [OF Cons.prems, of st rn acc] have "ok" by simp
  with r Cons show ?case by simp
qed

lemma object_rename_no_abort:
  "\<not> abortEarly opts \<Longrightarrow> \<exists>t e. object_rename s ps st opts es = (True, t, e)"
proof -
  assume a: "\<not> abortEarly opts"
  obtain ok t rn e where r: "rename_loop st opts (renames s) (ps, [], es) = (ok, t, rn, e)"
    by (cases "rename_loop st opts (renames s) (ps, [], es)") auto
  with rename_loop_no_abort [OF a, of st "renames s" "(ps, [], es)"] have ok by simp
  with r show ?thesis by (simp add: object_rename_def)
qed

lemma rename_one_distinct:
  assumes "rename_one st opts rn (t, rd, e) = (ok, t', rd', e')" and "distinct (map fst t)"
  shows "distinct (map fst t')"
  using assms
  by (auto simp: rename_one_def rename_literal_def rename_regex_def Let_def
        distinct_prop_assign distinct_prop_delete distinct_fold_delete_if
      split: rename_from.splits if_splits)

lemma rename_loop_distinct:
  assumes "rename_loop st opts rns (t, rd, e) = (ok, t', rd', e')" and "distinct (map fst t)"
  shows "distinct (map fst t')"
  using assms
proof (induction rns arbitrary: t rd e)
  case Nil
  then show ?case by simp
next
  case (Cons rn rns)
  obtain ok1 t1 rd1 e1 where r: "rename_one st opts rn (t, rd, e) = (ok1, t1, rd1, e1)"
    by (cases "rename_one st opts rn (t, rd, e)") auto
  have d1: "distinct (map fst t1)" using rename_one_distinct [OF r Cons.prems(2)] .
  show ?case
  proof (cases ok1)
    case True
    with Cons.prems(1) r have "rename_loop st opts rns (t1, rd1, e1) = (ok, t', rd', e')" by simp
    from Cons.IH [OF this d1] show ?thesis .
  next
    case False
    with Cons.prems(1) r d1 show ?thesis by simp
  qed
qed

lemma object_rename_distinct:
  assumes "object_rename s ps st opts es = (ok, t, e)" and "distinct (map fst ps)"
  shows "distinct (map fst t)"
proof -
  obtain ok' t' rn e' where r: "rename_loop st opts (renames s) (ps, [], es) = (ok', t', rn, e')"
    by (cases "rename_loop st opts (renames s) (ps, [], es)") auto
  with assms(1) have "t' = t" by (simp add: object_rename_def)
  with rename_loop_distinct [OF r assms(2)] show ?thesis by simp
qed

lemma validate_children_Cons:
  assumes "validate_children f st opts (ch # chs) t e strips = (ok, t', e', strips')"
  shows "(\<exists>t1 e1 s1. validate_children f st opts chs t1 e1 s1 = (ok, t', e', strips')
            \<and> child_step ch t e strips t1 e1 s1)
       \<or> (abortEarly opts \<and> \<not> ok \<and> t' = t \<and> strips' = strips \<and> (\<exists>post. e' = e @ post))"
proof -
  let ?res = "sn_validate (c_schema ch) (prop_get t (c_key ch))
                (new_state (Some (c_key ch)) (s_path st @ [c_key ch]) (mk_target f t # s_ancestors st)) opts"
  show ?thesis
  proof (cases "r_errors ?res")
    case None
    let ?strip1 = "flag_strip (c_schema ch) \<or> (r_value ?res = Undefined \<and> prop_get t (c_key ch) \<noteq> Undefined)"
    let ?t1 = "if ?strip1 then prop_assign t (c_key ch) (r_outcome ?res)
               else if r_value ?res \<noteq> Undefined then prop_assign t (c_key ch) (r_value ?res) else t"
    let ?s1 = "if ?strip1 then strips @ [c_key ch] else strips"
    let ?s2 = "if flag_strip (c_schema ch) then ?s1 @ [c_key ch] else ?s1"
    have v: "validate_children f st opts chs ?t1 e ?s2 = (ok, t', e', strips')"
      using assms None by (simp add: Let_def)
    have "child_step ch t e strips ?t1 e ?s2"
      by (auto simp: child_step_def prop_get_assign hasOwn_assign distinct_prop_assign)
    with v show ?thesis by blast
  next
    case (Some errs)
    show ?thesis
    proof (cases "abortEarly opts")
      case True
      with Some assms show ?thesis by (auto simp: Let_def)
    next
      case False
      let ?s1 = "if flag_strip (c_schema ch) then strips @ [c_key ch] else strips"
      have v: "validate_children f st opts chs t (e @ errs) ?s1 = (ok, t', e', strips')"
        using assms Some False by (simp add: Let_def)
      have "child_step ch t e strips t (e @ errs) ?s1"
        by (auto simp: child_step_def)
      with v show ?thesis by blast
    qed
  qed
qed

lemma validate_children_no_abort:
  "\<not> abortEarly opts \<Longrightarrow> fst (validate_children f st opts chs t e strips) = True"
  by (induction chs arbitrary: t e strips) (auto simp: Let_def split: option.splits)

lemma validate_children_spec:
  assumes "validate_children f st opts chs t e strips = (ok, t', e', strips')"
  shows "(\<forall>k. k \<notin> c_key ` set chs \<longrightarrow>
            prop_get t' k = prop_get t k \<and> hasOwnProperty t' k = hasOwnProperty t k)
       \<and> (\<exists>post. e' = e @ post)
       \<and> set strips \<subseteq> set strips' \<and> set strips' \<subseteq> set strips \<union> c_key ` set chs
       \<and> (ok \<longrightarrow> (\<forall>ch \<in> set chs. flag_strip (c_schema ch) \<longrightarrow> c_key ch \<in> set strips'))
       \<and> (distinct (map fst t) \<longrightarrow> distinct (map fst t'))"
  using assms
proof (induction chs arbitrary: t e strips)
  case Nil
  then show ?case by auto
next
  case (Cons ch chs)
  from validate_children_Cons [OF Cons.prems] show ?case
  proof
    assume "\<exists>t1 e1 s1. validate_children f st opts chs t1 e1 s1 = (ok, t', e', strips')
              \<and> child_step ch t e strips t1 e1 s1"
    then obtain t1 e1 s1 where v: "validate_children f st opts chs t1 e1 s1 = (ok, t', e', strips')"
      and c: "child_step ch t e strips t1 e1 s1" by blast
    from Cons.IH [OF v] c show ?thesis
      unfolding child_step_def by (auto simp: image_iff) 
  next
    assume "abortEarly opts \<and> \<not> ok \<and> t' = t \<and> strips' = strips \<and> (\<exists>post. e' = e @ post)"
    then show ?thesis by auto
  qed
qed

lemma children_stage_no_abort:
  "\<not> abortEarly opts \<Longrightarrow> \<exists>t1 e1 u1. children_stage s st opts t e u = (True, t1, e1, u1)"
proof (cases "children s")
  case None
  then show ?thesis by (simp add: children_stage_def)
next
  case (Some chs)
  assume a: "\<not> abortEarly opts"
  obtain ok t1 e1 s1 where v: "validate_children (flag_func s) st opts chs t e [] = (ok, t1, e1, s1)"
    by (cases "validate_children (flag_func s) st opts chs t e []") auto
  with validate_children_no_abort [OF a, of "flag_func s" st chs t e "[]"] have ok by simp
  with v Some show ?thesis by (simp add: children_stage_def)
qed

lemma children_stage_spec:
  assumes "children_stage s st opts t e u = (ok, t1, e1, u1)"
  shows "(\<forall>k. k \<notin> set (declared_keys s) \<longrightarrow>
            prop_get t1 k = prop_get t k \<and> hasOwnProperty t1 k = hasOwnProperty t k)
       \<and> (\<exists>post. e1 = e @ post)
       \<and> (ok \<longrightarrow> u1 = filter (\<lambda>k. k \<notin> set (declared_keys s)) u)
       \<and> (ok \<longrightarrow> (\<forall>chs ch. children s = Some chs \<longrightarrow> ch \<in> set chs \<longrightarrow> flag_strip (c_schema ch)
                     \<longrightarrow> \<not> hasOwnProperty t1 (c_key ch)))
       \<and> (distinct (map fst t) \<longrightarrow> distinct (map fst t1))"
proof (cases "children s")
  case None
  with assms show ?thesis by (auto simp: children_stage_def declared_keys_def)
next
  case (Some chs)
  obtain ok' t' e' s' where v: "validate_children (flag_func s) st opts chs t e [] = (ok', t', e', s')"
    by (cases "validate_children (flag_func s) st opts chs t e []") auto
  note sp = validate_children_spec [OF v]
  have dk: "set (declared_keys s) = c_key ` set chs" using Some by (simp add: declared_keys_def)
  show ?thesis
  proof (cases ok')
    case True
    with assms v Some have eq: "ok" "t1 = fold (\<lambda>key t. prop_delete t key) s' t'" "e1 = e'"
      "u1 = fold (\<lambda>ch u. removeAll (c_key ch) u) chs u"
      by (auto simp: children_stage_def)
    have s'sub: "set s' \<subseteq> c_key ` set chs" using sp by auto
    have a: "\<forall>k. k \<notin> set (declared_keys s) \<longrightarrow>
            prop_get t1 k = prop_get t k \<and> hasOwnProperty t1 k = hasOwnProperty t k"
      using sp s'sub unfolding eq dk by (auto simp: fold_delete_get fold_delete_hasOwn)
    have b: "\<exists>post. e1 = e @ post" using sp eq by blast
    have c: "u1 = filter (\<lambda>k. k \<notin> set (declared_keys s)) u"
      unfolding eq dk by (rule fold_removeAll_children)
    have d: "\<forall>chs ch. children s = Some chs \<longrightarrow> ch \<in> set chs \<longrightarrow> flag_strip (c_schema ch)
                     \<longrightarrow> \<not> hasOwnProperty t1 (c_key ch)"
      using sp True Some unfolding eq by (auto simp: fold_delete_hasOwn)
    have e: "distinct (map fst t) \<longrightarrow> distinct (map fst t1)"
      using sp unfolding eq by (auto simp: distinct_fold_delete)
    from a b c d e show ?thesis by blast
  next
    case False
    with assms v Some have eq: "\<not> ok" "t1 = t'" "e1 = e'" by (auto simp: children_stage_def)
    with sp show ?thesis unfolding dk by auto
  qed
qed



lemma removeAll_filter: "removeAll k u = filter (\<lambda>x. x \<noteq> k) u"
  by (induction u) auto

lemma match_patterns_no_abort:
  "\<not> abortEarly opts \<Longrightarrow> fst (match_patterns f st opts k item pats t e u) = True"
  by (induction pats arbitrary: t e u) (auto simp: Let_def split: option.splits)

lemma match_patterns_none:
  "\<forall>p \<in> set pats. \<not> pattern_matches p k st opts \<Longrightarrow>
   match_patterns f st opts k item pats t e u = (True, t, e, u)"
  by (induction pats arbitrary: t e u) auto

lemma match_patterns_spec:
  assumes "match_patterns f st opts k item pats t e u = (ok, t', e', u')"
  shows "(\<forall>k'. k' \<noteq> k \<longrightarrow> prop_get t' k' = prop_get t k' \<and> hasOwnProperty t' k' = hasOwnProperty t k')
       \<and> (hasOwnProperty t k \<longrightarrow> hasOwnProperty t' k)
       \<and> (\<exists>post. e' = e @ post)
       \<and> (ok \<longrightarrow> u' = (if \<exists>p \<in> set pats. pattern_matches p k st opts then removeAll k u else u))
       \<and> (distinct (map fst t) \<longrightarrow> distinct (map fst t'))"
  using assms
proof (induction pats arbitrary: t e u)
  case Nil
  then show ?case by auto
next
  case (Cons p pats)
  show ?case
  proof (cases "pattern_matches p k st opts")
    case False
    with Cons.prems have "match_patterns f st opts k item pats t e u = (ok, t', e', u')" by simp
    from Cons.IH [OF this] False show ?thesis by auto
  next
    case True
    let ?res = "sn_validate (p_rule p) item (new_state (Some k) (s_path st @ [k]) [mk_target f t]) opts"
    let ?t1 = "prop_set t k (r_value ?res)"
    show ?thesis
    proof (cases "abortEarly opts \<and> r_errors ?res \<noteq> None")
      case True
      with \<open>pattern_matches p k st opts\<close> Cons.prems show ?thesis
        by (auto simp: Let_def split: option.splits)
    next
      case False
      let ?e1 = "case r_errors ?res of None \<Rightarrow> e | Some errs \<Rightarrow> e @ errs"
      have m: "match_patterns f st opts k item pats ?t1 ?e1 (removeAll k u) = (ok, t', e', u')"
        using Cons.prems True False by (auto simp: Let_def split: option.splits)
      have pe: "\<exists>post. ?e1 = e @ post" by (cases "r_errors ?res") auto
      from Cons.IH [OF m] True pe show ?thesis
        by (auto simp: prop_get_set hasOwn_set distinct_prop_set)
    qed
  qed
qed

lemma match_patterns_last:
  assumes "\<not> abortEarly opts" and "pattern_matches p k st opts"
    and "\<forall>q \<in> set ps2. \<not> pattern_matches q k st opts"
    and "match_patterns f st opts k item (ps1 @ p # ps2) t e u = (ok, t', e', u')"
  shows "\<exists>tc. prop_get t' k =
           r_value (sn_validate (p_rule p) item
                      (new_state (Some k) (s_path st @ [k]) [mk_target f tc]) opts)"
  using assms(4)
proof (induction ps1 arbitrary: t e u)
  case Nil
  let ?res = "sn_validate (p_rule p) item (new_state (Some k) (s_path st @ [k]) [mk_target f t]) opts"
  have "match_patterns f st opts k item (p # ps2) t e u =
        (True, prop_set t k (r_value ?res),
         (case r_errors ?res of None \<Rightarrow> e | Some errs \<Rightarrow> e @ errs), removeAll k u)"
    using assms(1,2) match_patterns_none [OF assms(3)]
    by (auto simp: Let_def split: option.splits)
  with Nil have "t' = prop_set t k (r_value ?res)" by simp
  then have "prop_get t' k = r_value ?res" by (simp add: prop_get_set)
  then show ?case by blast
next
  case (Cons q ps1)
  show ?case
  proof (cases "pattern_matches q k st opts")
    case False
    with Cons.prems have "match_patterns f st opts k item (ps1 @ p # ps2) t e u = (ok, t', e', u')"
      by simp
    from Cons.IH [OF this] show ?thesis .
  next
    case True
    let ?res = "sn_validate (p_rule q) item (new_state (Some k) (s_path st @ [k]) [mk_target f t]) opts"
    have "match_patterns f st opts k item (ps1 @ p # ps2) (prop_set t k (r_value ?res))
            (case r_errors ?res of None \<Rightarrow> e | Some errs \<Rightarrow> e @ errs) (removeAll k u) = (ok, t', e', u')"
      using Cons.prems True assms(1) by (auto simp: Let_def split: option.splits)
    from Cons.IH [OF this] show ?thesis .
  qed
qed

lemma validate_patterns_no_abort:
  "\<not> abortEarly opts \<Longrightarrow> fst (validate_patterns f st opts pats keys t e u) = True"
proof (induction keys arbitrary: t e u)
  case Nil
  then show ?case by simp
next
  case (Cons key keys)
  obtain ok t1 e1 u1 where m: "match_patterns f st opts key (prop_get t key) pats t e u = (ok, t1, e1, u1)"
    by (cases "match_patterns f st opts key (prop_get t key) pats t e u") auto
  with match_patterns_no_abort [OF Cons.prems, of f st key "prop_get t key" pats t e u] have ok by simp
  with m Cons show ?case by simp
qed

lemma validate_patterns_spec:
  assumes "validate_patterns f st opts pats keys t e u = (ok, t', e', u')"
  shows "(\<forall>k. k \<notin> set keys \<longrightarrow> prop_get t' k = prop_get t k \<and> hasOwnProperty t' k = hasOwnProperty t k)
       \<and> (\<forall>k. hasOwnProperty t k \<longrightarrow> hasOwnProperty t' k)
       \<and> (\<exists>post. e' = e @ post)
       \<and> (ok \<longrightarrow> u' = filter (\<lambda>k. \<not> (k \<in> set keys \<and> (\<exists>p \<in> set pats. pattern_matches p k st opts))) u)
       \<and> (distinct (map fst t) \<longrightarrow> distinct (map fst t'))"
  using assms
proof (induction keys arbitrary: t e u)
  case Nil
  then show ?case by auto
next
  case (Cons key keys)
  obtain ok1 t1 e1 u1 where m: "match_patterns f st opts key (prop_get t key) pats t e u = (ok1, t1, e1, u1)"
    by (cases "match_patterns f st opts key (prop_get t key) pats t e u") auto
  note ms = match_patterns_spec [OF m]
  show ?case
  proof (cases ok1)
    case False
    with Cons.prems m have "\<not> ok" "t' = t1" "e' = e1" by auto
    with ms show ?thesis by (metis list.set_intros(1))
  next
    case True
    with Cons.prems m have v: "validate_patterns f st opts pats keys t1 e1 u1 = (ok, t', e', u')" by simp
    note vs = Cons.IH [OF v]
    have a: "\<forall>k. k \<notin> set (key # keys) \<longrightarrow> prop_get t' k = prop_get t k \<and> hasOwnProperty t' k = hasOwnProperty t k"
      using ms vs by auto
    have b: "\<forall>k. hasOwnProperty t k \<longrightarrow> hasOwnProperty t' k"
      using ms vs by metis
    have c: "\<exists>post. e' = e @ post" using ms vs by auto
    have u1: "u1 = filter (\<lambda>k. \<not> (k = key \<and> (\<exists>p \<in> set pats. pattern_matches p k st opts))) u"
      using ms True by (auto simp: removeAll_filter intro: filter_cong)
    have d: "ok \<longrightarrow> u' = filter (\<lambda>k. \<not> (k \<in> set (key # keys) \<and> (\<exists>p \<in> set pats. pattern_matches p k st opts))) u"
    proof
      assume ok
      with vs have "u' = filter (\<lambda>k. \<not> (k \<in> set keys \<and> (\<exists>p \<in> set pats. pattern_matches p k st opts))) u1"
        by blast
      then show "u' = filter (\<lambda>k. \<not> (k \<in> set (key # keys) \<and> (\<exists>p \<in> set pats. pattern_matches p k st opts))) u"
        unfolding u1 by (auto intro: filter_cong)
    qed
    have e: "distinct (map fst t) \<longrightarrow> distinct (map fst t')" using ms vs by blast
    from a b c d e show ?thesis by blast
  qed
qed

lemma validate_patterns_unmatched:
  assumes "validate_patterns f st opts pats keys t e u = (ok, t', e', u')"
    and "\<forall>p \<in> set pats. \<not> pattern_matches p c st opts"
  shows "prop_get t' c = prop_get t c"
  using assms(1)
proof (induction keys arbitrary: t e u)
  case Nil
  then show ?case by simp
next
  case (Cons key keys)
  obtain ok1 t1 e1 u1 where m: "match_patterns f st opts key (prop_get t key) pats t e u = (ok1, t1, e1, u1)"
    by (cases "match_patterns f st opts key (prop_get t key) pats t e u") auto
  have g: "prop_get t1 c = prop_get t c"
  proof (cases "key = c")
    case True
    with m match_patterns_none [OF assms(2), where f = f and item = "prop_get t c" and t = t
        and e = e and u = u]
    show ?thesis by simp
  next
    case False
    with match_patterns_spec [OF m] show ?thesis by simp
  qed
  show ?case
  proof (cases ok1)
    case True
    with Cons.prems m have "validate_patterns f st opts pats keys t1 e1 u1 = (ok, t', e', u')" by simp
    from Cons.IH [OF this] g show ?thesis by simp
  next
    case False
    with Cons.prems m g show ?thesis by simp
  qed
qed

lemma validate_patterns_key:
  assumes "\<not> abortEarly opts" and "pattern_matches p k st opts"
    and "\<forall>q \<in> set ps2. \<not> pattern_matches q k st opts"
    and "distinct keys" and "k \<in> set keys"
    and "validate_patterns f st opts (ps1 @ p # ps2) keys t e u = (ok, t', e', u')"
  shows "\<exists>tc. prop_get t' k =
           r_value (sn_validate (p_rule p) (prop_get t k)
                      (new_state (Some k) (s_path st @ [k]) [mk_target f tc]) opts)"
  using assms(4-6)
proof (induction keys arbitrary: t e u)
  case Nil
  then show ?case by simp
next
  case (Cons key keys)
  let ?pats = "ps1 @ p # ps2"
  obtain ok1 t1 e1 u1 where m: "match_patterns f st opts key (prop_get t key) ?pats t e u = (ok1, t1, e1, u1)"
    by (cases "match_patterns f st opts key (prop_get t key) ?pats t e u") auto
  with match_patterns_no_abort [OF assms(1), of f st key "prop_get t key" ?pats t e u] have ok1 by simp
  with Cons.prems(3) m have v: "validate_patterns f st opts ?pats keys t1 e1 u1 = (ok, t', e', u')" by simp
  show ?case
  proof (cases "key = k")
    case True
    with Cons.prems(1) have "k \<notin> set keys" by simp
    with validate_patterns_spec [OF v] have "prop_get t' k = prop_get t1 k" by blast
    moreover from match_patterns_last [OF assms(1-3) m [unfolded True]]
    obtain tc where "prop_get t1 k = r_value (sn_validate (p_rule p) (prop_get t k)
                      (new_state (Some k) (s_path st @ [k]) [mk_target f tc]) opts)" by blast
    ultimately show ?thesis by auto
  next
    case False
    with Cons.prems have "distinct keys" "k \<in> set keys" by auto
    from Cons.IH [OF this v] obtain tc where
      "prop_get t' k = r_value (sn_validate (p_rule p) (prop_get t1 k)
                      (new_state (Some k) (s_path st @ [k]) [mk_target f tc]) opts)" by blast
    moreover from match_patterns_spec [OF m] False have "prop_get t1 k = prop_get t k" by auto
    ultimately show ?thesis by auto
  qed
qed

lemma patterns_stage_no_abort:
  "\<not> abortEarly opts \<Longrightarrow> \<exists>t2 e2 u2. patterns_stage s st opts t e u = (True, t2, e2, u2)"
proof -
  assume a: "\<not> abortEarly opts"
  obtain ok t2 e2 u2 where v: "validate_patterns (flag_func s) st opts (patterns s) u t e u = (ok, t2, e2, u2)"
    by (cases "validate_patterns (flag_func s) st opts (patterns s) u t e u") auto
  with validate_patterns_no_abort [OF a, of "flag_func s" st "patterns s" u t e u] have ok by simp
  with v show ?thesis by (auto simp: patterns_stage_def)
qed

lemma patterns_stage_spec:
  assumes "patterns_stage s st opts t e u = (ok, t', e', u')"
  shows "(\<forall>k. k \<notin> set u \<longrightarrow> prop_get t' k = prop_get t k \<and> hasOwnProperty t' k = hasOwnProperty t k)
       \<and> (\<forall>k. hasOwnProperty t k \<longrightarrow> hasOwnProperty t' k)
       \<and> (\<exists>post. e' = e @ post)
       \<and> (ok \<longrightarrow> u' = filter (\<lambda>k. \<not> (\<exists>p \<in> set (patterns s). pattern_matches p k st opts)) u)
       \<and> (distinct (map fst t) \<longrightarrow> distinct (map fst t'))"
proof (cases "u \<noteq> [] \<and> patterns s \<noteq> []")
  case True
  with assms have "validate_patterns (flag_func s) st opts (patterns s) u t e u = (ok, t', e', u')"
    by (simp add: patterns_stage_def)
  from validate_patterns_spec [OF this] show ?thesis by (auto intro: filter_cong)
next
  case False
  with assms have "ok" "t' = t" "e' = e" "u' = u" by (auto simp: patterns_stage_def)
  moreover have "filter (\<lambda>k. \<not> (\<exists>p \<in> set (patterns s). pattern_matches p k st opts)) u = u"
    using False by (cases "u = []") auto
  ultimately show ?thesis by auto
qed



lemma patterns_stage_unmatched:
  assumes "patterns_stage s st opts t e u = (ok, t', e', u')"
    and "\<forall>p \<in> set (patterns s). \<not> pattern_matches p c st opts"
  shows "prop_get t' c = prop_get t c"
proof (cases "u \<noteq> [] \<and> patterns s \<noteq> []")
  case True
  with assms(1) have "validate_patterns (flag_func s) st opts (patterns s) u t e u = (ok, t', e', u')"
    by (simp add: patterns_stage_def)
  from validate_patterns_unmatched [OF this assms(2)] show ?thesis .
next
  case False
  with assms(1) show ?thesis by (auto simp: patterns_stage_def)
qed

lemma strip_unknown_keys_True:
  "strip_unknown_keys True keys t u =
     (fold (\<lambda>key t. prop_delete t key) keys t, filter (\<lambda>k. k \<notin> set keys) u)"
  by (induction keys arbitrary: t u) (auto simp: removeAll_filter intro: filter_cong)

lemma strip_unknown_keys_False:
  "strip_unknown_keys False keys t u =
     (t, filter (\<lambda>k. \<not> (k \<in> set keys \<and> typeof (prop_get t k) = TFunction)) u)"
  by (induction keys arbitrary: u) (auto simp: removeAll_filter intro: filter_cong)

lemma strip_unknown_keys_spec:
  assumes "strip_unknown_keys b keys t u = (t', u')"
  shows "(\<forall>k. hasOwnProperty t' k \<longrightarrow> hasOwnProperty t k)
       \<and> (\<forall>k. k \<notin> set keys \<longrightarrow> prop_get t' k = prop_get t k \<and> hasOwnProperty t' k = hasOwnProperty t k)"
  using assms
  by (cases b) (auto simp: strip_unknown_keys_True strip_unknown_keys_False fold_delete_hasOwn fold_delete_get)

lemma unknown_stage_spec:
  assumes "unknown_stage s st opts t e u = (t', e')"
  shows "(\<forall>k. hasOwnProperty t' k \<longrightarrow> hasOwnProperty t k)
       \<and> (\<forall>k. k \<notin> set u \<longrightarrow> prop_get t' k = prop_get t k \<and> hasOwnProperty t' k = hasOwnProperty t k)
       \<and> (\<exists>post. e' = e @ post)"
proof -
  let ?b = "case stripUnknown opts of StripOff \<Rightarrow> False | StripAll \<Rightarrow> True
            | StripOnly arrays objects \<Rightarrow> objects"
  obtain ts us where s: "strip_unknown_keys ?b u t u = (ts, us)"
    by (cases "strip_unknown_keys ?b u t u") auto
  note sp = strip_unknown_keys_spec [OF s]
  from assms s have "t' = t \<or> t' = ts"
    by (auto simp: unknown_stage_def Let_def split: if_splits)
  moreover from assms s have "\<exists>post. e' = e @ post"
    by (auto simp: unknown_stage_def Let_def split: if_splits prod.splits)
  ultimately show ?thesis using sp by auto
qed

lemma validate_dependencies_prefix:
  "\<exists>post. validate_dependencies s st opts target deps e = e @ post"
proof (induction deps arbitrary: e)
  case Nil
  then show ?case by simp
next
  case (Cons dep deps)
  let ?kv = "case d_key dep of None \<Rightarrow> Null | Some key \<Rightarrow> reach target key"
  show ?case
  proof (cases "dep_method (d_type dep) s dep ?kv target")
    case None
    with Cons show ?thesis by simp
  next
    case (Some a)
    obtain code ctx where a: "a = (code, ctx)" by (cases a)
    let ?e1 = "e @ [createError code ctx (case d_key dep of
                      Some key \<Rightarrow> new_state (if key = [] then None else Some (last key)) (s_path st @ key) []
                    | None \<Rightarrow> new_state None (s_path st) []) opts]"
    from Cons [of ?e1] obtain post where "validate_dependencies s st opts target deps ?e1 = ?e1 @ post"
      by blast
    with Some a show ?thesis by (auto simp: Let_def)
  qed
qed

lemma base_walk:
  assumes "object_rename s (shallow_copy ps) st opts [] = (True, t0, e0)"
    and "children s \<noteq> None \<or> patterns s \<noteq> [] \<or> dependencies s \<noteq> []"
    and "children_stage s st opts t0 e0 (Object_keys t0) = (True, t1, e1, u1)"
    and "patterns_stage s st opts t1 e1 u1 = (True, t2, e2, u2)"
    and "unknown_stage s st opts t2 e2 u2 = (t3, e3)"
  shows "object_base s (mk_target (flag_func s) ps) st opts =
           finish (flag_func s) t3
             (validate_dependencies s st opts (mk_target (flag_func s) t3) (dependencies s) e3)"
  using assms by (auto simp: object_base_def mk_target_gate Let_def)

lemma base_finish_value:
  "own_props (b_value (finish f t e)) = t"
  by (simp add: finish_def mk_target_gate)


section \<open>Stripped children and pattern rules when errors are collected\<close>

text \<open>
  Claim C9. With \<open>abortEarly\<close> off, a declared child flagged \<open>strip\<close> is not a key of
  the value \<open>_base\<close> returns, whether its validation failed or not: the key is put on the
  strip list on the error path as well, so its original value is not in the result.
\<close>

theorem strip_on_error_path:
  assumes "\<not> abortEarly opts" and "children s = Some chs" and "ch \<in> set chs"
    and "flag_strip (c_schema ch)"
  shows "\<not> hasOwnProperty (own_props (b_value (object_base s (mk_target (flag_func s) ps) st opts)))
             (c_key ch)
       \<and> prop_get (own_props (b_value (object_base s (mk_target (flag_func s) ps) st opts)))
             (c_key ch) = Undefined"
proof -
  obtain t0 e0 where r: "object_rename s (shallow_copy ps) st opts [] = (True, t0, e0)"
    using object_rename_no_abort [OF assms(1)] by blast
  obtain t1 e1 u1 where c: "children_stage s st opts t0 e0 (Object_keys t0) = (True, t1, e1, u1)"
    using children_stage_no_abort [OF assms(1)] by blast
  obtain t2 e2 u2 where p: "patterns_stage s st opts t1 e1 u1 = (True, t2, e2, u2)"
    using patterns_stage_no_abort [OF assms(1)] by blast
  obtain t3 e3 where u: "unknown_stage s st opts t2 e2 u2 = (t3, e3)"
    by (cases "unknown_stage s st opts t2 e2 u2")
  have shape: "children s \<noteq> None \<or> patterns s \<noteq> [] \<or> dependencies s \<noteq> []"
    using assms(2) by simp
  have v: "own_props (b_value (object_base s (mk_target (flag_func s) ps) st opts)) = t3"
    unfolding base_walk [OF r shape c p u] by (rule base_finish_value)
  have k: "c_key ch \<in> set (declared_keys s)" using assms(2,3) by (simp add: declared_keys_def)
  from children_stage_spec [OF c] assms(2-4)
  have n1: "\<not> hasOwnProperty t1 (c_key ch)" and u1: "u1 = filter (\<lambda>k. k \<notin> set (declared_keys s)) (Object_keys t0)"
    by blast+
  from u1 k have "c_key ch \<notin> set u1" by simp
  with patterns_stage_spec [OF p] n1 have n2: "\<not> hasOwnProperty t2 (c_key ch)" by blast
  with unknown_stage_spec [OF u] have "\<not> hasOwnProperty t3 (c_key ch)" by blast
  with v show ?thesis by (simp add: not_hasOwn_get)
qed

theorem strip_on_error_path_witness:
  "object_base
     (empty_object\<lparr>children := Some [\<lparr>c_key = ''a'',
         c_schema = (rejecting ''any.invalid'')\<lparr>flag_strip := True\<rparr>\<rparr>]\<rparr>)
     (JObj [(''a'', JNum 1)]) root_state (default_options\<lparr>abortEarly := False\<rparr>) =
   \<lparr>b_value = JObj [],
    b_errors = Some [\<lparr>e_code = ''any.invalid'', e_context = [(''value'', CValue (JNum 1))],
                      e_path = [''a'']\<rparr>]\<rparr>
 \<and> \<not> hasOwnProperty (own_props (b_value (object_base
     (empty_object\<lparr>children := Some [\<lparr>c_key = ''a'',
         c_schema = (rejecting ''any.invalid'')\<lparr>flag_strip := True\<rparr>\<rparr>]\<rparr>)
     (JObj [(''a'', JNum 1)]) root_state (default_options\<lparr>abortEarly := False\<rparr>)))) ''a''"
proof -
  let ?ch = "\<lparr>c_key = ''a'', c_schema = (rejecting ''any.invalid'')\<lparr>flag_strip := True\<rparr>\<rparr>"
  let ?s = "empty_object\<lparr>children := Some [?ch]\<rparr>"
  let ?o = "default_options\<lparr>abortEarly := False\<rparr>"
  have h: "\<not> abortEarly ?o" "children ?s = Some [?ch]" "?ch \<in> set [?ch]" "flag_strip (c_schema ?ch)"
    by (simp_all add: default_options_def)
  have m: "mk_target (flag_func ?s) [(''a'', JNum 1)] = JObj [(''a'', JNum 1)]"
    by (simp add: mk_target_def empty_object_def)
  have e: "object_base ?s (JObj [(''a'', JNum 1)]) root_state ?o =
             \<lparr>b_value = JObj [],
              b_errors = Some [\<lparr>e_code = ''any.invalid'', e_context = [(''value'', CValue (JNum 1))],
                                e_path = [''a'']\<rparr>]\<rparr>"
    by code_simp
  from strip_on_error_path [OF h, of "[(''a'', JNum 1)]" root_state, unfolded m] e
  show ?thesis by simp
qed


text \<open>
  Claim C10 as it is written fails when a later pattern matches the key as well. With the
  patterns \<open>/./\<close> whose rule fails with the output 7 and \<open>/./\<close> whose rule accepts, the
  value \<open>{x: 1}\<close> and \<open>abortEarly\<close> off, the write of line 195 puts 7 under \<open>x\<close>, and the
  second pattern, which validates the value read before the loop, writes 1 back: the
  value returned under \<open>x\<close> is the input's, with the error of the first rule.
\<close>

theorem pattern_write_overwritten_counterexample:
  "object_base
     (empty_object\<lparr>patterns := [\<lparr>p_matcher = Regex (\<lambda>k. True),
                                  p_rule = rejecting_as ''number.base'' (JNum 7)\<rparr>,
                                 \<lparr>p_matcher = Regex (\<lambda>k. True), p_rule = accepting []\<rparr>]\<rparr>)
     (JObj [(''x'', JNum 1)]) root_state (default_options\<lparr>abortEarly := False\<rparr>) =
   \<lparr>b_value = JObj [(''x'', JNum 1)],
    b_errors = Some [\<lparr>e_code = ''number.base'', e_context = [(''value'', CValue (JNum 1))],
                      e_path = [''x'']\<rparr>]\<rparr>"
  by code_simp

text \<open>
  Claim C10, amended. With \<open>abortEarly\<close> off, take a key of the renamed working copy that
  is not a declared child, and the last pattern that matches it. The value \<open>_base\<close>
  returns holds under that key the value that this pattern's rule returned for the key's
  value, whether the rule reported errors or not: the write after the rule is
  unconditional, and only the write of a later matching pattern replaces it. So the value
  returned under a key reflects a failed validation's output when the failing pattern is
  the last one that matches the key. (The rule runs in a local state whose path ends in
  the key and whose only ancestor is the working copy of that moment.)
\<close>

theorem pattern_result_written_back:
  assumes "\<not> abortEarly opts" and "distinct (map fst ps)"
    and "object_rename s (shallow_copy ps) st opts [] = (ok, t0, e0)"
    and "k \<in> set (Object_keys t0)" and "k \<notin> set (declared_keys s)"
    and "patterns s = ps1 @ p # ps2" and "pattern_matches p k st opts"
    and "\<forall>q \<in> set ps2. \<not> pattern_matches q k st opts"
  shows "\<exists>tc. prop_get (own_props (b_value (object_base s (mk_target (flag_func s) ps) st opts))) k =
           r_value (sn_validate (p_rule p) (prop_get t0 k)
                      (new_state (Some k) (s_path st @ [k]) [mk_target (flag_func s) tc]) opts)"
proof -
  have r: "object_rename s (shallow_copy ps) st opts [] = (True, t0, e0)"
    using object_rename_no_abort [OF assms(1), of s "shallow_copy ps" st "[]"] assms(3) by auto
  have d0: "distinct (map fst t0)"
    using object_rename_distinct [OF r shallow_copy_distinct [OF assms(2)]] .
  obtain t1 e1 u1 where c: "children_stage s st opts t0 e0 (Object_keys t0) = (True, t1, e1, u1)"
    using children_stage_no_abort [OF assms(1)] by blast
  obtain t2 e2 u2 where p: "patterns_stage s st opts t1 e1 u1 = (True, t2, e2, u2)"
    using patterns_stage_no_abort [OF assms(1)] by blast
  obtain t3 e3 where u: "unknown_stage s st opts t2 e2 u2 = (t3, e3)"
    by (cases "unknown_stage s st opts t2 e2 u2")
  have shape: "children s \<noteq> None \<or> patterns s \<noteq> [] \<or> dependencies s \<noteq> []"
    using assms(6) by simp
  have v: "own_props (b_value (object_base s (mk_target (flag_func s) ps) st opts)) = t3"
    unfolding base_walk [OF r shape c p u] by (rule base_finish_value)
  from children_stage_spec [OF c] assms(5)
  have g1: "prop_get t1 k = prop_get t0 k"
    and u1: "u1 = filter (\<lambda>k. k \<notin> set (declared_keys s)) (Object_keys t0)" by blast+
  have ku1: "k \<in> set u1" using u1 assms(4,5) by simp
  have du1: "distinct u1" using u1 d0 by (simp add: Object_keys_def)
  have vp: "validate_patterns (flag_func s) st opts (ps1 @ p # ps2) u1 t1 e1 u1 = (True, t2, e2, u2)"
  proof -
    from ku1 have "u1 \<noteq> []" by auto
    with p assms(6) show ?thesis by (simp add: patterns_stage_def)
  qed
  from validate_patterns_key [OF assms(1,7,8) du1 ku1 vp] obtain tc where
    g2: "prop_get t2 k = r_value (sn_validate (p_rule p) (prop_get t1 k)
                      (new_state (Some k) (s_path st @ [k]) [mk_target (flag_func s) tc]) opts)" by blast
  from patterns_stage_spec [OF p] assms(6,7)
  have "k \<notin> set u2" by auto
  with unknown_stage_spec [OF u] have "prop_get t3 k = prop_get t2 k" by blast
  with v g1 g2 show ?thesis by auto
qed


theorem pattern_result_written_back_witness:
  "prop_get (own_props (b_value (object_base
      (empty_object\<lparr>patterns := [\<lparr>p_matcher = Regex (\<lambda>k. True),
                                   p_rule = rejecting_as ''number.base'' (JNum 7)\<rparr>]\<rparr>)
      (JObj [(''x'', JNum 1)]) root_state (default_options\<lparr>abortEarly := False\<rparr>)))) ''x'' = JNum 7
 \<and> b_errors (object_base
      (empty_object\<lparr>patterns := [\<lparr>p_matcher = Regex (\<lambda>k. True),
                                   p_rule = rejecting_as ''number.base'' (JNum 7)\<rparr>]\<rparr>)
      (JObj [(''x'', JNum 1)]) root_state (default_options\<lparr>abortEarly := False\<rparr>)) =
   Some [\<lparr>e_code = ''number.base'', e_context = [(''value'', CValue (JNum 1))], e_path = [''x'']\<rparr>]"
proof -
  let ?p = "\<lparr>p_matcher = Regex (\<lambda>k. True), p_rule = rejecting_as ''number.base'' (JNum 7)\<rparr>"
  let ?s = "empty_object\<lparr>patterns := [?p]\<rparr>"
  let ?o = "default_options\<lparr>abortEarly := False\<rparr>"
  let ?ps = "[(''x'', JNum 1)]"
  have h: "\<not> abortEarly ?o" "distinct (map fst ?ps)"
    "object_rename ?s (shallow_copy ?ps) root_state ?o [] = (True, ?ps, [])"
    "''x'' \<in> set (Object_keys ?ps)" "''x'' \<notin> set (declared_keys ?s)"
    "patterns ?s = [] @ ?p # []" "pattern_matches ?p ''x'' root_state ?o"
    "\<forall>q \<in> set []. \<not> pattern_matches q ''x'' root_state ?o"
    by (simp_all add: default_options_def object_rename_def empty_object_def Object_keys_def
        declared_keys_def pattern_matches_def shallow_copy_def)
  have m: "mk_target (flag_func ?s) ?ps = JObj ?ps"
    by (simp add: mk_target_def empty_object_def)
  have e: "b_errors (object_base ?s (JObj ?ps) root_state ?o) =
      Some [\<lparr>e_code = ''number.base'', e_context = [(''value'', CValue (JNum 1))], e_path = [''x'']\<rparr>]"
    by code_simp
  from pattern_result_written_back [OF h, unfolded m] e
  show ?thesis by (simp add: rejecting_as_def)
qed

section \<open>Unknown keys\<close>

lemma hasOwn_keys: "hasOwnProperty t k = (k \<in> set (Object_keys t))"
  by (simp add: hasOwnProperty_def Object_keys_def)


text \<open>
  Two inputs on which more than the policy decides what happens to an unknown key. The
  guard of line 204 lets \<open>skipFunctions\<close> open the block that drops keys, and the block
  does not ask again whether the schema allows unknown keys: with \<open>unknown(true)\<close>,
  \<open>stripUnknown\<close> and \<open>skipFunctions\<close> together the key is dropped. An own key
  \<open>__proto__\<close> of the input is not a key of the working copy, so it is neither reported
  nor returned.
\<close>

lemma unknown_allowed_but_stripped:
  "object_base
     (object_unknown (empty_object\<lparr>children := Some [\<lparr>c_key = ''a'', c_schema = accepting []\<rparr>]\<rparr>) True)
     (JObj [(''a'', JNum 1), (''c'', JNum 2)]) root_state
     (default_options\<lparr>stripUnknown := StripAll, skipFunctions := True\<rparr>) =
   \<lparr>b_value = JObj [(''a'', JNum 1)], b_errors = None\<rparr>"
  by code_simp

lemma proto_key_not_copied:
  "object_base (empty_object\<lparr>children := Some [\<lparr>c_key = ''a'', c_schema = accepting []\<rparr>]\<rparr>)
     (JObj [(''a'', JNum 1), (''__proto__'', JNum 2)]) root_state default_options =
   \<lparr>b_value = JObj [(''a'', JNum 1)], b_errors = None\<rparr>"
  by code_simp

text \<open>
  Claim C4 as it is written fails on two inputs. The schema \<open>Joi.object()\<close> declares no
  children and no pattern (\<open>null allows any keys\<close>, lines 71 and 116): on \<open>{a: 1, c: 2}\<close>
  under the default options it reports nothing for \<open>c\<close>. And with the option
  \<open>stripUnknown: { arrays: true }\<close> the constant of lines 207 to 209 is false: for a
  schema declaring only \<open>a\<close>, the key \<open>c\<close> is kept and reported.
\<close>

theorem unknown_keys_counterexample:
  "object_base empty_object (JObj [(''a'', JNum 1), (''c'', JNum 2)]) root_state default_options =
   \<lparr>b_value = JObj [(''a'', JNum 1), (''c'', JNum 2)], b_errors = None\<rparr>
 \<and> object_base (empty_object\<lparr>children := Some [\<lparr>c_key = ''a'', c_schema = accepting []\<rparr>]\<rparr>)
     (JObj [(''a'', JNum 1), (''c'', JNum 2)]) root_state
     (default_options\<lparr>stripUnknown := StripOnly True False\<rparr>) =
   \<lparr>b_value = JObj [(''a'', JNum 1), (''c'', JNum 2)],
    b_errors = Some [\<lparr>e_code = ''object.allowUnknown'',
                      e_context = [(''child'', CKey (Some ''c'')), (''value'', CValue (JNum 2))],
                      e_path = [''c'']\<rparr>]\<rparr>"
  by code_simp

text \<open>
  Claim C4, amended. Take a schema that declares children or patterns and a walk that
  reaches the unknown-key stage (renaming, the declared children and the patterns did not
  return early), and a key \<open>c\<close> of the renamed working copy that is no declared child and
  matches no pattern. Then \<open>c\<close> is one of the keys left unprocessed, each of which occurs
  once, it is still a key of the working copy and has the value it had after renaming,
  and:
  when unknown keys are forbidden, neither \<open>stripUnknown\<close> nor \<open>skipFunctions\<close> is set
  and, if \<open>abortEarly\<close> is on, \<open>c\<close> is the only key left unprocessed, \<open>_base\<close> returns the
  working copy with, after the errors of the earlier stages and before those of the
  dependencies, one \<open>object.allowUnknown\<close> error per unprocessed key, the one for \<open>c\<close>
  naming \<open>c\<close> and carrying the path of \<open>c\<close>;
  when the schema was given \<open>unknown(true)\<close> and the options do not have \<open>skipFunctions\<close>
  together with a \<open>stripUnknown\<close> that drops the keys of objects, the working copy, which
  still has \<open>c\<close>, is returned and this stage adds no error;
  when \<open>stripUnknown\<close> is \<open>true\<close> or has \<open>objects\<close> set and the schema was not given
  \<open>unknown(true)\<close>, the working copy without the unprocessed keys, \<open>c\<close> among them, is
  returned and this stage adds no error.
\<close>

theorem unknown_keys_policy:
  assumes "distinct (map fst ps)"
    and "children s \<noteq> None \<or> patterns s \<noteq> []"
    and "object_rename s (shallow_copy ps) st opts [] = (True, t0, e0)"
    and "children_stage s st opts t0 e0 (Object_keys t0) = (True, t1, e1, u1)"
    and "patterns_stage s st opts t1 e1 u1 = (True, t2, e2, u2)"
    and "c \<in> set (Object_keys t0)" and "c \<notin> set (declared_keys s)"
    and "\<forall>p \<in> set (patterns s). \<not> pattern_matches p c st opts"
  shows "c \<in> set u2 \<and> distinct u2 \<and> hasOwnProperty t2 c \<and> prop_get t2 c = prop_get t0 c
       \<and> (\<not> Common_default (flag_allowUnknown s) (allowUnknown opts)
            \<and> stripUnknown opts = StripOff \<and> \<not> skipFunctions opts
            \<and> (abortEarly opts \<longrightarrow> u2 = [c]) \<longrightarrow>
          (\<exists>post. object_base s (mk_target (flag_func s) ps) st opts =
             \<lparr>b_value = mk_target (flag_func s) t2,
              b_errors = Some (e2 @ map (unknown_error st opts t2) u2 @ post)\<rparr>)
          \<and> unknown_error st opts t2 c =
               \<lparr>e_code = ''object.allowUnknown'',
                e_context = [(''child'', CKey (Some c)), (''value'', CValue (prop_get t2 c))],
                e_path = s_path st @ [c]\<rparr>)
       \<and> (flag_allowUnknown s = Some True \<and> \<not> (skipFunctions opts \<and> strips_keys opts) \<longrightarrow>
          object_base s (mk_target (flag_func s) ps) st opts =
             finish (flag_func s) t2
               (validate_dependencies s st opts (mk_target (flag_func s) t2) (dependencies s) e2))
       \<and> (strips_keys opts \<and> flag_allowUnknown s \<noteq> Some True \<longrightarrow>
          \<not> hasOwnProperty (fold (\<lambda>key t. prop_delete t key) u2 t2) c
          \<and> object_base s (mk_target (flag_func s) ps) st opts =
              finish (flag_func s) (fold (\<lambda>key t. prop_delete t key) u2 t2)
                (validate_dependencies s st opts
                   (mk_target (flag_func s) (fold (\<lambda>key t. prop_delete t key) u2 t2))
                   (dependencies s) e2))"
proof -
  let ?f = "flag_func s"
  have shape: "children s \<noteq> None \<or> patterns s \<noteq> [] \<or> dependencies s \<noteq> []"
    using assms(2) by blast
  have d0: "distinct (map fst t0)"
    using object_rename_distinct [OF assms(3) shallow_copy_distinct [OF assms(1)]] .
  note cs = children_stage_spec [OF assms(4)]
  note pst = patterns_stage_spec [OF assms(5)]
  have u1: "u1 = filter (\<lambda>k. k \<notin> set (declared_keys s)) (Object_keys t0)" using cs by blast
  have u2: "u2 = filter (\<lambda>k. \<not> (\<exists>p \<in> set (patterns s). pattern_matches p k st opts)) u1"
    using pst by blast
  have cu2: "c \<in> set u2" unfolding u2 u1 using assms(6-8) by simp
  have du2: "distinct u2" unfolding u2 u1 using d0 by (simp add: Object_keys_def)
  have h2: "hasOwnProperty t2 c"
  proof -
    have "hasOwnProperty t0 c" using assms(6) by (simp add: hasOwn_keys)
    with cs assms(7) have "hasOwnProperty t1 c" by blast
    with pst show ?thesis by blast
  qed
  have g2: "prop_get t2 c = prop_get t0 c"
  proof -
    from cs assms(7) have "prop_get t1 c = prop_get t0 c" by blast
    with patterns_stage_unmatched [OF assms(5,8)] show ?thesis by simp
  qed
  have ne: "u2 \<noteq> []" using cu2 by auto
  have A: "\<exists>post. object_base s (mk_target ?f ps) st opts =
             \<lparr>b_value = mk_target ?f t2,
              b_errors = Some (e2 @ map (unknown_error st opts t2) u2 @ post)\<rparr>"
    if "\<not> Common_default (flag_allowUnknown s) (allowUnknown opts)"
      "stripUnknown opts = StripOff" "\<not> skipFunctions opts"
  proof -
    have us: "unknown_stage s st opts t2 e2 u2 = (t2, e2 @ map (unknown_error st opts t2) u2)"
      using that ne assms(2) by (simp add: unknown_stage_def)
    obtain post where post: "validate_dependencies s st opts (mk_target ?f t2) (dependencies s)
                         (e2 @ map (unknown_error st opts t2) u2) =
                       (e2 @ map (unknown_error st opts t2) u2) @ post"
      using validate_dependencies_prefix by blast
    have "object_base s (mk_target ?f ps) st opts =
             \<lparr>b_value = mk_target ?f t2,
              b_errors = Some (e2 @ map (unknown_error st opts t2) u2 @ post)\<rparr>"
      unfolding base_walk [OF assms(3) shape assms(4,5) us] post using ne
      by (simp add: finish_def)
    then show ?thesis by blast
  qed
  have B: "unknown_error st opts t2 c =
               \<lparr>e_code = ''object.allowUnknown'',
                e_context = [(''child'', CKey (Some c)), (''value'', CValue (prop_get t2 c))],
                e_path = s_path st @ [c]\<rparr>"
    by (simp add: unknown_error_def createError_def new_state_def)
  have C: "object_base s (mk_target ?f ps) st opts =
             finish ?f t2 (validate_dependencies s st opts (mk_target ?f t2) (dependencies s) e2)"
    if "flag_allowUnknown s = Some True" "\<not> (skipFunctions opts \<and> strips_keys opts)"
  proof -
    have us: "unknown_stage s st opts t2 e2 u2 = (t2, e2)"
    proof (cases "skipFunctions opts")
      case False
      with that(1) show ?thesis by (simp add: unknown_stage_def Common_default_def)
    next
      case True
      with that(2) have "(case stripUnknown opts of StripOff \<Rightarrow> False | StripAll \<Rightarrow> True
               | StripOnly arrays objects \<Rightarrow> objects) = False"
        by (simp add: strips_keys_def)
      with that(1) True show ?thesis
        by (simp add: unknown_stage_def Common_default_def strip_unknown_keys_False)
    qed
    show ?thesis using base_walk [OF assms(3) shape assms(4,5) us] .
  qed
  have D: "\<not> hasOwnProperty (fold (\<lambda>key t. prop_delete t key) u2 t2) c
          \<and> object_base s (mk_target ?f ps) st opts =
              finish ?f (fold (\<lambda>key t. prop_delete t key) u2 t2)
                (validate_dependencies s st opts
                   (mk_target ?f (fold (\<lambda>key t. prop_delete t key) u2 t2)) (dependencies s) e2)"
    if "strips_keys opts" "flag_allowUnknown s \<noteq> Some True"
  proof -
    let ?t3 = "fold (\<lambda>key t. prop_delete t key) u2 t2"
    have b: "(case stripUnknown opts of StripOff \<Rightarrow> False | StripAll \<Rightarrow> True
               | StripOnly arrays objects \<Rightarrow> objects) = True"
      using that(1) by (simp add: strips_keys_def)
    have so: "stripUnknown opts \<noteq> StripOff" using that(1) by (auto simp: strips_keys_def)
    have us: "unknown_stage s st opts t2 e2 u2 = (?t3, e2)"
      using that(2) so ne assms(2) unfolding unknown_stage_def b
      by (simp add: strip_unknown_keys_True)
    have "\<not> hasOwnProperty ?t3 c" using cu2 by (simp add: fold_delete_hasOwn)
    with base_walk [OF assms(3) shape assms(4,5) us] show ?thesis by blast
  qed
  from cu2 du2 h2 g2 A B C D show ?thesis by blast
qed

theorem unknown_keys_policy_witness:
  "object_base (empty_object\<lparr>children := Some [\<lparr>c_key = ''a'', c_schema = accepting []\<rparr>]\<rparr>)
     (JObj [(''a'', JNum 1), (''c'', JNum 2)]) root_state default_options =
   \<lparr>b_value = JObj [(''a'', JNum 1), (''c'', JNum 2)],
    b_errors = Some [\<lparr>e_code = ''object.allowUnknown'',
                      e_context = [(''child'', CKey (Some ''c'')), (''value'', CValue (JNum 2))],
                      e_path = [''c'']\<rparr>]\<rparr>
 \<and> object_base
     (object_unknown (empty_object\<lparr>children := Some [\<lparr>c_key = ''a'', c_schema = accepting []\<rparr>]\<rparr>) True)
     (JObj [(''a'', JNum 1), (''c'', JNum 2)]) root_state default_options =
   \<lparr>b_value = JObj [(''a'', JNum 1), (''c'', JNum 2)], b_errors = None\<rparr>
 \<and> object_base (empty_object\<lparr>children := Some [\<lparr>c_key = ''a'', c_schema = accepting []\<rparr>]\<rparr>)
     (JObj [(''a'', JNum 1), (''c'', JNum 2)]) root_state (default_options\<lparr>stripUnknown := StripAll\<rparr>) =
   \<lparr>b_value = JObj [(''a'', JNum 1)], b_errors = None\<rparr>"
proof -
  let ?s = "empty_object\<lparr>children := Some [\<lparr>c_key = ''a'', c_schema = accepting []\<rparr>]\<rparr>"
  let ?ps = "[(''a'', JNum 1), (''c'', JNum 2)]"
  have h: "distinct (map fst ?ps)" "children ?s \<noteq> None \<or> patterns ?s \<noteq> []"
    "object_rename ?s (shallow_copy ?ps) root_state default_options [] = (True, ?ps, [])"
    "children_stage ?s root_state default_options ?ps [] (Object_keys ?ps) = (True, ?ps, [], [''c''])"
    "patterns_stage ?s root_state default_options ?ps [] [''c''] = (True, ?ps, [], [''c''])"
    "''c'' \<in> set (Object_keys ?ps)" "''c'' \<notin> set (declared_keys ?s)"
    "\<forall>p \<in> set (patterns ?s). \<not> pattern_matches p ''c'' root_state default_options"
    by (simp_all add: empty_object_def object_rename_def children_stage_def patterns_stage_def
        Object_keys_def declared_keys_def accepting_def prop_get_def prop_set_def prop_assign_def
        shallow_copy_def Let_def)
  have o: "\<not> Common_default (flag_allowUnknown ?s) (allowUnknown default_options)
           \<and> stripUnknown default_options = StripOff \<and> \<not> skipFunctions default_options
           \<and> (abortEarly default_options \<longrightarrow> [''c''] = [''c''])"
    by (simp add: empty_object_def default_options_def Common_default_def)
  have m: "mk_target (flag_func ?s) t = JObj t" for t
    by (simp add: mk_target_def empty_object_def)
  from unknown_keys_policy [OF h] o
  obtain post where
    "object_base ?s (mk_target (flag_func ?s) ?ps) root_state default_options =
       \<lparr>b_value = mk_target (flag_func ?s) ?ps,
        b_errors = Some ([] @ map (unknown_error root_state default_options ?ps) [''c''] @ post)\<rparr>"
    by blast
  then have "b_value (object_base ?s (JObj ?ps) root_state default_options) = JObj ?ps"
    unfolding m by simp
  moreover have "object_base ?s (JObj ?ps) root_state default_options =
     \<lparr>b_value = JObj ?ps,
      b_errors = Some [\<lparr>e_code = ''object.allowUnknown'',
                      e_context = [(''child'', CKey (Some ''c'')), (''value'', CValue (JNum 2))],
                      e_path = [''c'']\<rparr>]\<rparr>"
    by code_simp
  moreover have "object_base (object_unknown ?s True) (JObj ?ps) root_state default_options =
     \<lparr>b_value = JObj ?ps, b_errors = None\<rparr>"
    by code_simp
  moreover have "object_base ?s (JObj ?ps) root_state (default_options\<lparr>stripUnknown := StripAll\<rparr>) =
     \<lparr>b_value = JObj [(''a'', JNum 1)], b_errors = None\<rparr>"
    by code_simp
  ultimately show ?thesis by simp
qed

section \<open>Several patterns matching one key\<close>

lemma fold_set_get:
  "rs \<noteq> [] \<Longrightarrow> prop_get (fold (\<lambda>r t. prop_set t key (r_value r)) rs t) key = r_value (last rs)"
  by (induction rs arbitrary: t) (auto simp: prop_get_set)

lemma fold_set_other:
  "k \<noteq> key \<Longrightarrow> prop_get (fold (\<lambda>r t. prop_set t key (r_value r)) rs t) k = prop_get t k"
  by (induction rs arbitrary: t) (auto simp: prop_get_set)

lemma match_patterns_results:
  assumes "abortEarly opts \<longrightarrow> (\<forall>r \<in> set (pattern_results f st opts key item pats t). r_errors r = None)"
  shows "match_patterns f st opts key item pats t e u =
           (True,
            fold (\<lambda>r t. prop_set t key (r_value r)) (pattern_results f st opts key item pats t) t,
            e @ concat (map errors_of (pattern_results f st opts key item pats t)),
            if pattern_results f st opts key item pats t = [] then u else removeAll key u)"
  using assms
proof (induction pats arbitrary: t e u)
  case Nil
  then show ?case by simp
next
  case (Cons p pats)
  show ?case
  proof (cases "pattern_matches p key st opts")
    case False
    then show ?thesis using Cons by simp
  next
    case True
    let ?res = "sn_validate (p_rule p) item (new_state (Some key) (s_path st @ [key]) [mk_target f t]) opts"
    let ?t1 = "prop_set t key (r_value ?res)"
    have pr: "pattern_results f st opts key item (p # pats) t =
              ?res # pattern_results f st opts key item pats ?t1"
      using True by (simp add: Let_def)
    have a1: "abortEarly opts \<longrightarrow> (\<forall>r \<in> set (pattern_results f st opts key item pats ?t1). r_errors r = None)"
      using Cons.prems unfolding pr by simp
    have a2: "abortEarly opts \<longrightarrow> r_errors ?res = None"
      using Cons.prems unfolding pr by simp
    note ih = Cons.IH [OF a1]
    show ?thesis
    proof (cases "r_errors ?res")
      case None
      with True ih show ?thesis unfolding pr by (simp add: Let_def errors_of_def)
    next
      case (Some errs)
      with a2 have "\<not> abortEarly opts" by auto
      with Some True ih show ?thesis unfolding pr by (simp add: Let_def errors_of_def)
    qed
  qed
qed

lemma pattern_results_length:
  "length (pattern_results f st opts key item pats t) =
     length (filter (\<lambda>p. pattern_matches p key st opts) pats)"
  by (induction pats arbitrary: t) (auto simp: Let_def)

lemma pattern_results_nth:
  "i < length (pattern_results f st opts key item pats t) \<Longrightarrow>
   \<exists>tc. pattern_results f st opts key item pats t ! i =
          sn_validate (p_rule (filter (\<lambda>p. pattern_matches p key st opts) pats ! i)) item
            (new_state (Some key) (s_path st @ [key]) [mk_target f tc]) opts"
proof (induction pats arbitrary: t i)
  case Nil
  then show ?case by simp
next
  case (Cons p pats)
  show ?case
  proof (cases "pattern_matches p key st opts")
    case False
    with Cons show ?thesis by simp
  next
    case True
    show ?thesis
    proof (cases i)
      case 0
      with True show ?thesis by (auto simp: Let_def)
    next
      case (Suc j)
      with True Cons.prems have
        "j < length (pattern_results f st opts key item pats
               (prop_set t key (r_value (sn_validate (p_rule p) item
                  (new_state (Some key) (s_path st @ [key]) [mk_target f t]) opts))))"
        by (simp add: Let_def)
      from Cons.IH [OF this] show ?thesis using True Suc by (simp add: Let_def)
    qed
  qed
qed


text \<open>
  Claim C3 says that only the first matching pattern applies to an unprocessed key. The
  inner loop over the patterns has no exit after a match. For the key \<open>x\<close> with value 0 and
  two patterns that both match, the value returned under \<open>x\<close> is the output of the second
  rule, and with \<open>abortEarly\<close> off the errors of both rules are reported.
\<close>

theorem first_match_counterexample:
  "pattern_matches \<lparr>p_matcher = Regex (\<lambda>k. True), p_rule = replacing (JNum 1)\<rparr> ''x''
      root_state default_options
 \<and> pattern_matches \<lparr>p_matcher = Regex (\<lambda>k. True), p_rule = replacing (JNum 2)\<rparr> ''x''
      root_state default_options
 \<and> object_base
      (empty_object\<lparr>patterns := [\<lparr>p_matcher = Regex (\<lambda>k. True), p_rule = replacing (JNum 1)\<rparr>,
                                  \<lparr>p_matcher = Regex (\<lambda>k. True), p_rule = replacing (JNum 2)\<rparr>]\<rparr>)
      (JObj [(''x'', JNum 0)]) root_state default_options =
    \<lparr>b_value = JObj [(''x'', JNum 2)], b_errors = None\<rparr>
 \<and> object_base
      (empty_object\<lparr>patterns := [\<lparr>p_matcher = Regex (\<lambda>k. True), p_rule = rejecting ''first''\<rparr>,
                                  \<lparr>p_matcher = Regex (\<lambda>k. True), p_rule = rejecting ''second''\<rparr>]\<rparr>)
      (JObj [(''x'', JNum 0)]) root_state (default_options\<lparr>abortEarly := False\<rparr>) =
    \<lparr>b_value = JObj [(''x'', JNum 0)],
     b_errors = Some [\<lparr>e_code = ''first'', e_context = [(''value'', CValue (JNum 0))], e_path = [''x'']\<rparr>,
                      \<lparr>e_code = ''second'', e_context = [(''value'', CValue (JNum 0))], e_path = [''x'']\<rparr>]\<rparr>"
  by code_simp


text \<open>
  Claim C3, amended. The patterns are tested against an unprocessed key in declaration
  order and every pattern that matches applies, as long as no rule fails while \<open>abortEarly\<close>
  is on: there is one rule result per matching pattern, each the validation of the key's
  original value against that pattern's rule; the errors of all of them are appended in
  that order, the value written back last is the one of the last matching pattern, and
  the key leaves the unprocessed set. A key that matches no pattern is left as it is.
\<close>

theorem every_matching_pattern_applies:
  assumes "rs = pattern_results f st opts key item pats t"
    and "ms = filter (\<lambda>p. pattern_matches p key st opts) pats"
    and "abortEarly opts \<longrightarrow> (\<forall>r \<in> set rs. r_errors r = None)"
  shows "length rs = length ms
       \<and> (\<forall>i < length ms. \<exists>tc. rs ! i =
             sn_validate (p_rule (ms ! i)) item
               (new_state (Some key) (s_path st @ [key]) [mk_target f tc]) opts)
       \<and> match_patterns f st opts key item pats t e u =
           (True, fold (\<lambda>r t. prop_set t key (r_value r)) rs t,
            e @ concat (map errors_of rs), if ms = [] then u else removeAll key u)
       \<and> (ms \<noteq> [] \<longrightarrow>
            prop_get (fold (\<lambda>r t. prop_set t key (r_value r)) rs t) key = r_value (last rs))
       \<and> (ms = [] \<longrightarrow> match_patterns f st opts key item pats t e u = (True, t, e, u))"
proof -
  have l: "length rs = length ms" unfolding assms(1,2) by (rule pattern_results_length)
  then have em: "(rs = []) = (ms = [])" by auto
  have n: "\<forall>i < length ms. \<exists>tc. rs ! i =
             sn_validate (p_rule (ms ! i)) item
               (new_state (Some key) (s_path st @ [key]) [mk_target f tc]) opts"
    using pattern_results_nth [of _ f st opts key item pats t] l unfolding assms(1,2) by auto
  have m: "match_patterns f st opts key item pats t e u =
           (True, fold (\<lambda>r t. prop_set t key (r_value r)) rs t,
            e @ concat (map errors_of rs), if ms = [] then u else removeAll key u)"
    using match_patterns_results [OF assms(3) [unfolded assms(1)], of e u] em
    unfolding assms(1) [symmetric] by simp
  have g: "ms \<noteq> [] \<longrightarrow>
            prop_get (fold (\<lambda>r t. prop_set t key (r_value r)) rs t) key = r_value (last rs)"
    using em fold_set_get by auto
  have z: "ms = [] \<longrightarrow> match_patterns f st opts key item pats t e u = (True, t, e, u)"
    using m em by auto
  from l n m g z show ?thesis by blast
qed

theorem every_matching_pattern_applies_witness:
  "match_patterns False root_state (default_options\<lparr>abortEarly := False\<rparr>) ''x'' (JNum 0)
     [\<lparr>p_matcher = Regex (\<lambda>k. True), p_rule = rejecting_as ''first'' (JNum 1)\<rparr>,
      \<lparr>p_matcher = Regex (\<lambda>k. k = ''y''), p_rule = rejecting_as ''other'' (JNum 5)\<rparr>,
      \<lparr>p_matcher = Regex (\<lambda>k. True), p_rule = rejecting_as ''second'' (JNum 2)\<rparr>]
     [(''x'', JNum 0)] [] [''x''] =
   (True, [(''x'', JNum 2)],
    [\<lparr>e_code = ''first'', e_context = [(''value'', CValue (JNum 0))], e_path = [''x'']\<rparr>,
     \<lparr>e_code = ''second'', e_context = [(''value'', CValue (JNum 0))], e_path = [''x'']\<rparr>],
    [])
 \<and> match_patterns False root_state default_options ''x'' (JNum 0)
     [\<lparr>p_matcher = Regex (\<lambda>k. True), p_rule = replacing (JNum 1)\<rparr>,
      \<lparr>p_matcher = Regex (\<lambda>k. True), p_rule = replacing (JNum 2)\<rparr>]
     [(''x'', JNum 0)] [] [''x''] =
   (True, [(''x'', JNum 2)], [], [])"
proof -
  have h: "abortEarly (default_options\<lparr>abortEarly := False\<rparr>) \<longrightarrow> (\<forall>r \<in> set rs. r_errors r = None)" for rs
    by simp
  note th = every_matching_pattern_applies [OF refl refl h, THEN conjunct2, THEN conjunct2, THEN conjunct1]
  have h2: "abortEarly default_options \<longrightarrow>
     (\<forall>r \<in> set (pattern_results False root_state default_options ''x'' (JNum 0)
        [\<lparr>p_matcher = Regex (\<lambda>k. True), p_rule = replacing (JNum 1)\<rparr>,
         \<lparr>p_matcher = Regex (\<lambda>k. True), p_rule = replacing (JNum 2)\<rparr>]
        [(''x'', JNum 0)]). r_errors r = None)"
    by (simp add: pattern_matches_def replacing_def Let_def)
  note th2 = every_matching_pattern_applies [OF refl refl h2, THEN conjunct2, THEN conjunct2, THEN conjunct1]
  show ?thesis unfolding th th2 by code_simp
qed

section \<open>Stopping at the first error\<close>

text \<open>
  Claim C5 says that with \<open>abortEarly\<close> on \<open>_base\<close> returns at most one error. The loop
  that reports unknown keys (lines 225 to 228) does not look at \<open>abortEarly\<close>, unlike the
  loops over renames, children, patterns and dependencies: for a schema declaring only
  \<open>a\<close> and the value \<open>{a: 1, c: 2, d: 3}\<close> under the default options, two errors are
  returned.
\<close>

theorem abortEarly_unknown_keys_not_stopped:
  "abortEarly default_options
 \<and> object_base (empty_object\<lparr>children := Some [\<lparr>c_key = ''a'', c_schema = accepting []\<rparr>]\<rparr>)
     (JObj [(''a'', JNum 1), (''c'', JNum 2), (''d'', JNum 3)]) root_state default_options =
   \<lparr>b_value = JObj [(''a'', JNum 1), (''c'', JNum 2), (''d'', JNum 3)],
    b_errors = Some [\<lparr>e_code = ''object.allowUnknown'',
                      e_context = [(''child'', CKey (Some ''c'')), (''value'', CValue (JNum 2))],
                      e_path = [''c'']\<rparr>,
                     \<lparr>e_code = ''object.allowUnknown'',
                      e_context = [(''child'', CKey (Some ''d'')), (''value'', CValue (JNum 3))],
                      e_path = [''d'']\<rparr>]\<rparr>"
  by code_simp

theorem abortEarly_unknown_keys_not_stopped_witness:
  "map e_path
     (case b_errors
             (object_base (empty_object\<lparr>children := Some [\<lparr>c_key = ''a'', c_schema = accepting []\<rparr>]\<rparr>)
                (JObj [(''a'', JNum 1), (''c'', JNum 2), (''d'', JNum 3)]) root_state
                default_options) of
        None \<Rightarrow> []
      | Some es \<Rightarrow> es) = [[''c''], [''d'']]"
  using abortEarly_unknown_keys_not_stopped by simp

section \<open>Truncation of strings\<close>

text \<open>
  Claim C8. For a string schema with the \<open>truncate\<close> flag and a \<open>max\<close> rule whose limit is
  the number \<open>n\<close>, whatever encoding the rule was declared with: when coercion gets as far
  as the truncation (no ISO date failure before it), it returns the first \<open>n\<close> code units
  of the value coerced so far, so at most \<open>n\<close> characters, and no error. The \<open>max\<close> rule
  itself compares the number of code units with the limit only when it has no encoding;
  with an encoding it compares the byte length, which the truncation did not look at.
\<close>

theorem truncate_counts_code_units:
  assumes "flag_truncate s"
    and "rule_max s = Some \<lparr>la_limit = Limit n, la_encoding = enc\<rparr>"
    and "coerce_isoDate env s (coerce_steps env s v) = Some pre"
  shows "string_coerce env s (JStr v) st opts = \<lparr>b_value = JStr (take n pre), b_errors = None\<rparr>
       \<and> length (take n pre) = min n (length pre)
       \<and> (\<forall>x. string_rule_length env st opts x n None ''max'' OpLe = Inr x \<longleftrightarrow> length x \<le> n)
       \<and> (\<forall>x e. string_rule_length env st opts x n (Some e) ''max'' OpLe = Inr x
                 \<longleftrightarrow> js_byteLength env x e \<le> n)"
  using assms
  by (auto simp: string_coerce_def slice0_def string_rule_length_def Let_def min_def)

theorem truncate_counts_code_units_witness:
  "string_coerce two_byte_env
     (empty_string\<lparr>flag_truncate := True,
                   rule_max := Some \<lparr>la_limit = Limit 2, la_encoding = Some ''utf8''\<rparr>\<rparr>)
     (JStr [233, 233, 233]) root_state default_options =
   \<lparr>b_value = JStr [233, 233], b_errors = None\<rparr>
 \<and> js_byteLength two_byte_env [233, 233] ''utf8'' = 4
 \<and> string_rule_length two_byte_env root_state default_options [233, 233] 2 (Some ''utf8'')
      ''max'' OpLe \<noteq> Inr [233, 233]"
proof -
  let ?s = "empty_string\<lparr>flag_truncate := True,
                   rule_max := Some \<lparr>la_limit = Limit 2, la_encoding = Some ''utf8''\<rparr>\<rparr>"
  have h: "flag_truncate ?s" "rule_max ?s = Some \<lparr>la_limit = Limit 2, la_encoding = Some ''utf8''\<rparr>"
    "coerce_isoDate two_byte_env ?s (coerce_steps two_byte_env ?s [233, 233, 233]) = Some [233, 233, 233]"
    by (simp_all add: empty_string_def coerce_isoDate_def coerce_steps_def two_byte_env_def)
  have b: "js_byteLength two_byte_env [233, 233] ''utf8'' = 4"
    by (simp add: two_byte_env_def)
  from truncate_counts_code_units [OF h, of root_state default_options] b
  show ?thesis by simp
qed

section \<open>The order of the children\<close>

lemma emitted_after_snoc:
  assumes "emitted_after anc es" and "set (ancestor_list anc c) \<subseteq> set es"
  shows "emitted_after anc (es @ [c])"
  unfolding emitted_after_def
proof (intro allI impI)
  fix xs c' ys
  assume eq: "es @ [c] = xs @ c' # ys"
  show "set (ancestor_list anc c') \<subseteq> set xs"
  proof (cases ys rule: rev_cases)
    case Nil
    with eq have "xs = es" "c' = c" by auto
    with assms(2) show ?thesis by simp
  next
    case (snoc ys' z)
    with eq have "es = xs @ c' # ys'" by auto
    with assms(1) show ?thesis unfolding emitted_after_def by blast
  qed
qed

lemma anc_inv_list: "anc_inv anc0 anc \<Longrightarrow> ancestor_list anc k = ancestor_list anc0 k"
  unfolding anc_inv_def ancestor_list_def by (metis option.simps(4,5))

lemma anc_inv_touch: "anc_inv anc0 anc \<Longrightarrow> anc j = None \<Longrightarrow> anc_inv anc0 (anc(j \<mapsto> []))"
  unfolding anc_inv_def by (metis fun_upd_apply)

lemma find_next_spec:
  assumes "find_next js anc es = (anc', r)" and "anc_inv anc0 anc"
  shows "anc_inv anc0 anc' \<and> (\<forall>k. anc k \<noteq> None \<longrightarrow> anc' k \<noteq> None)
       \<and> (\<forall>j. r = Some j \<longrightarrow> j \<in> set js \<and> j \<notin> set es \<and> anc' j \<noteq> None
                \<and> set (ancestor_list anc0 j) \<subseteq> set es)"
  using assms
proof (induction js arbitrary: anc)
  case Nil
  then show ?case by auto
next
  case (Cons j js)
  show ?case
  proof (cases "j \<in> set es")
    case True
    with Cons.prems have "find_next js anc es = (anc', r)" by simp
    from Cons.IH [OF this Cons.prems(2)] show ?thesis by auto
  next
    case False
    let ?anc1 = "case anc j of None \<Rightarrow> anc(j \<mapsto> []) | Some l \<Rightarrow> anc"
    have i1: "anc_inv anc0 ?anc1"
      using Cons.prems(2) anc_inv_touch by (cases "anc j") auto
    have m1: "\<forall>k. anc k \<noteq> None \<longrightarrow> ?anc1 k \<noteq> None" by (cases "anc j") auto
    have d1: "?anc1 j \<noteq> None" by (cases "anc j") auto
    have l1: "(case ?anc1 j of None \<Rightarrow> [] | Some l \<Rightarrow> l) = ancestor_list anc0 j"
      using anc_inv_list [OF i1, of j] by (simp add: ancestor_list_def)
    show ?thesis
    proof (cases "list_all (\<lambda>a. a \<in> set es) (ancestor_list anc0 j)")
      case True
      with False Cons.prems(1) l1 have "anc' = ?anc1" "r = Some j" by (auto simp: Let_def)
      with i1 m1 d1 True False show ?thesis by (auto simp: list_all_iff)
    next
      case nall: False
      with False Cons.prems(1) l1 have "find_next js ?anc1 es = (anc', r)" by (auto simp: Let_def)
      from Cons.IH [OF this i1] m1 show ?thesis by auto
    qed
  qed
qed

lemma sort_steps_spec:
  assumes "anc_inv anc0 anc" and "emitted_after anc0 es" and "distinct es" and "distinct is"
    and "\<forall>k \<in> set es. k \<in> set is \<longrightarrow> anc k \<noteq> None"
    and "set is \<subseteq> {0..<n}" and "set es \<subseteq> {0..<n}"
  shows "emitted_after anc0 (sort_steps n is anc es) \<and> distinct (sort_steps n is anc es)
       \<and> set (sort_steps n is anc es) \<subseteq> {0..<n}"
  using assms
proof (induction "is" arbitrary: anc es)
  case Nil
  then show ?case by simp
next
  case (Cons i "is")
  show ?case
  proof (cases "anc i")
    case None
    have ni: "i \<notin> set es" using Cons.prems(5) None by auto
    have al: "ancestor_list anc0 i = []"
      using anc_inv_list [OF Cons.prems(1), of i] None by (simp add: ancestor_list_def)
    have "emitted_after anc0 (sort_steps n is anc (es @ [i])) \<and> distinct (sort_steps n is anc (es @ [i]))
       \<and> set (sort_steps n is anc (es @ [i])) \<subseteq> {0..<n}"
    proof (rule Cons.IH)
      show "anc_inv anc0 anc" by fact
      show "emitted_after anc0 (es @ [i])" using emitted_after_snoc [OF Cons.prems(2)] al by simp
      show "distinct (es @ [i])" using Cons.prems(3) ni by simp
      show "distinct is" using Cons.prems(4) by simp
      show "\<forall>k \<in> set (es @ [i]). k \<in> set is \<longrightarrow> anc k \<noteq> None"
        using Cons.prems(4,5) by auto
      show "set is \<subseteq> {0..<n}" using Cons.prems(6) by simp
      show "set (es @ [i]) \<subseteq> {0..<n}" using Cons.prems(6,7) by simp
    qed
    with None show ?thesis by simp
  next
    case (Some l)
    obtain anc' r where f: "find_next [0..<n] anc es = (anc', r)"
      by (cases "find_next [0..<n] anc es")
    note fs = find_next_spec [OF f Cons.prems(1)]
    show ?thesis
    proof (cases r)
      case None
      have "emitted_after anc0 (sort_steps n is anc' es) \<and> distinct (sort_steps n is anc' es)
         \<and> set (sort_steps n is anc' es) \<subseteq> {0..<n}"
      proof (rule Cons.IH)
        show "anc_inv anc0 anc'" using fs by blast
        show "emitted_after anc0 es" by fact
        show "distinct es" by fact
        show "distinct is" using Cons.prems(4) by simp
        show "\<forall>k \<in> set es. k \<in> set is \<longrightarrow> anc' k \<noteq> None"
          using Cons.prems(5) fs by auto
        show "set is \<subseteq> {0..<n}" using Cons.prems(6) by simp
        show "set es \<subseteq> {0..<n}" by fact
      qed
      with Some f None show ?thesis by simp
    next
      case (Some j)
      with fs have j: "j \<in> set [0..<n]" "j \<notin> set es" "anc' j \<noteq> None"
        "set (ancestor_list anc0 j) \<subseteq> set es" by blast+
      have "emitted_after anc0 (sort_steps n is anc' (es @ [j])) \<and> distinct (sort_steps n is anc' (es @ [j]))
         \<and> set (sort_steps n is anc' (es @ [j])) \<subseteq> {0..<n}"
      proof (rule Cons.IH)
        show "anc_inv anc0 anc'" using fs by blast
        show "emitted_after anc0 (es @ [j])" using emitted_after_snoc [OF Cons.prems(2) j(4)] .
        show "distinct (es @ [j])" using Cons.prems(3) j(2) by simp
        show "distinct is" using Cons.prems(4) by simp
        show "\<forall>k \<in> set (es @ [j]). k \<in> set is \<longrightarrow> anc' k \<noteq> None"
          using Cons.prems(5) fs j(3) by auto
        show "set is \<subseteq> {0..<n}" using Cons.prems(6) by simp
        show "set (es @ [j]) \<subseteq> {0..<n}" using Cons.prems(7) j(1) by simp
      qed
      with \<open>anc i = Some l\<close> f Some show ?thesis by simp
    qed
  qed
qed

lemma sort_steps_no_ancestors:
  "\<forall>i \<in> set is. anc i = None \<Longrightarrow> sort_steps n is anc es = es @ is"
  by (induction "is" arbitrary: es) auto

lemma filter_unique:
  assumes "distinct (map f xs)" and "x \<in> set xs"
  shows "filter (\<lambda>y. f y = f x) xs = [x]"
  using assms
proof (induction xs)
  case Nil
  then show ?case by simp
next
  case (Cons z zs)
  show ?case
  proof (cases "z = x")
    case True
    have "f x \<notin> f ` set zs" using Cons.prems(1) True by simp
    then have "filter (\<lambda>y. f y = f x) zs = []"
      unfolding filter_empty_conv by (metis image_eqI)
    with True show ?thesis by simp
  next
    case False
    with Cons.prems have "x \<in> set zs" "f z \<noteq> f x" by auto
    with Cons show ?thesis by simp
  qed
qed

lemma topo_ancestors_mem:
  assumes "distinct (map t_seq items)" and "y \<in> set items" and "x \<in> set items"
    and "t_group x \<in> set (t_after y)"
  shows "t_seq x \<in> set (ancestor_list (topo_ancestors items) (t_seq y))"
proof -
  have f: "filter (\<lambda>it. t_seq it = t_seq y) items = [y]"
    using filter_unique [OF assms(1,2)] .
  let ?l = "map t_seq (filter (\<lambda>n. t_group n \<in> set (t_after y)) items)"
  have "t_seq x \<in> set ?l" using assms(3,4) by auto
  moreover have "ancestor_list (topo_ancestors items) (t_seq y) = ?l"
    unfolding ancestor_list_def topo_ancestors_def f by (cases ?l) auto
  ultimately show ?thesis by simp
qed

lemma topo_sort_spec:
  assumes "seqs_ok items" and "topo_sort items = Some items'"
  shows "mset items' = mset items \<and> seqs_ok items' \<and> after_ok items'"
proof -
  define n where "n = length items"
  define ss where "ss = sort_steps n [0..<n] (topo_ancestors items) []"
  let ?g = "\<lambda>q. filter (\<lambda>it. t_seq it = q) items"
  have ds: "distinct (map t_seq items)" and sq: "t_seq ` set items = {0..<n}"
    using assms(1) by (auto simp: seqs_ok_def n_def)
  have len: "length ss = n" and i': "items' = concat (map ?g ss)"
    using assms(2) by (auto simp: topo_sort_def Let_def ss_def n_def split: if_splits)
  have sp: "emitted_after (topo_ancestors items) ss \<and> distinct ss \<and> set ss \<subseteq> {0..<n}"
    unfolding ss_def by (rule sort_steps_spec) (auto simp: anc_inv_def emitted_after_def)
  then have ea: "emitted_after (topo_ancestors items) ss" and dss: "distinct ss"
    and sub: "set ss \<subseteq> {0..<n}" by blast+
  have set_ss: "set ss = {0..<n}"
  proof (rule card_subset_eq)
    show "finite {0..<n}" by simp
    show "set ss \<subseteq> {0..<n}" by (rule sub)
    show "card (set ss) = card {0..<n}" using dss len by (simp add: distinct_card)
  qed
  have single: "map t_seq (?g q) = [q]" if "q \<in> set ss" for q
  proof -
    from that have "q \<in> t_seq ` set items" unfolding set_ss sq .
    then obtain x where x: "x \<in> set items" "t_seq x = q" by blast
    from filter_unique [OF ds x(1)] x(2) show ?thesis by simp
  qed
  have seqs': "map t_seq items' = ss"
  proof -
    have "map t_seq items' = concat (map (\<lambda>q. map t_seq (?g q)) ss)"
      unfolding i' by (simp add: map_concat comp_def)
    also have "\<dots> = concat (map (\<lambda>q. [q]) ss)"
    proof -
      have "map (\<lambda>q. map t_seq (?g q)) ss = map (\<lambda>q. [q]) ss"
        by (rule map_cong [OF refl]) (rule single)
      then show ?thesis by (rule arg_cong [where f = concat])
    qed
    also have "\<dots> = ss" by (induction ss) auto
    finally show ?thesis .
  qed
  have set': "set items' = set items"
  proof
    show "set items' \<subseteq> set items" unfolding i' by auto
    show "set items \<subseteq> set items'"
    proof
      fix x assume x: "x \<in> set items"
      then have "t_seq x \<in> set ss" unfolding set_ss sq [symmetric] by simp
      with x show "x \<in> set items'" unfolding i' by auto
    qed
  qed
  have ds': "distinct (map t_seq items')" unfolding seqs' by (rule dss)
  have d': "distinct items'" using ds' by (simp add: distinct_map)
  have d: "distinct items" using ds by (simp add: distinct_map)
  have m: "mset items' = mset items"
    using set' d d' by (simp add: set_eq_iff_mset_eq_distinct [symmetric])
  have "length (map t_seq items') = n" unfolding seqs' by (rule len)
  then have len': "length items' = n" by simp
  have so: "seqs_ok items'"
    unfolding seqs_ok_def len' using ds' seqs' set_ss by simp
  have ao: "after_ok items'"
    unfolding after_ok_def
  proof (intro allI impI ballI)
    fix xs y ys x
    assume eq: "items' = xs @ y # ys" and x: "x \<in> set items'" and g: "t_group x \<in> set (t_after y)"
    have y: "y \<in> set items" using eq set' by auto
    have x': "x \<in> set items" using x set' by simp
    have "ss = map t_seq xs @ t_seq y # map t_seq ys" using seqs' eq by simp
    with ea have "set (ancestor_list (topo_ancestors items) (t_seq y)) \<subseteq> set (map t_seq xs)"
      unfolding emitted_after_def by blast
    with topo_ancestors_mem [OF ds y x' g] obtain x2 where x2: "x2 \<in> set xs" "t_seq x2 = t_seq x"
      by auto
    have "inj_on t_seq (set items')" using ds' by (simp add: distinct_map)
    moreover have "x2 \<in> set items'" using x2 eq by simp
    ultimately have "x2 = x" using x2(2) x by (auto dest: inj_onD)
    with x2 show "x \<in> set xs" by simp
  qed
  from m so ao show ?thesis by blast
qed

lemma topo_add_spec:
  assumes "seqs_ok items" and "topo_add items node after grp = Inr items'"
  shows "mset items' = mset items + {#\<lparr>t_seq = length items, t_after = after, t_group = grp, t_node = node\<rparr>#}
       \<and> seqs_ok items' \<and> after_ok items'"
proof -
  let ?new = "\<lparr>t_seq = length items, t_after = after, t_group = grp, t_node = node\<rparr>"
  have s: "seqs_ok (items @ [?new])"
    using assms(1) by (auto simp: seqs_ok_def)
  have "topo_sort (items @ [?new]) = Some items'"
    using assms(2) by (auto simp: topo_add_def split: option.splits)
  from topo_sort_spec [OF s this] show ?thesis by simp
qed

lemma keyed_mset:
  assumes "mset items' = mset items + {#new#}" and "keyed items"
    and "t_group new = c_key (t_node new)" and "t_after new = refs_roots (c_schema (t_node new))"
  shows "keyed items'"
proof -
  have "set items' = set items \<union> {new}"
    using assms(1) by (metis set_mset_mset set_mset_union set_mset_single)
  with assms(2-4) show ?thesis unfolding keyed_def by auto
qed

lemma nodes_mset:
  assumes "mset items' = mset items + {#new#}"
  shows "mset (map t_node items') = mset (map t_node items) + {#t_node new#}"
proof -
  have "mset (map t_node items') = image_mset t_node (mset items')" by simp
  also have "\<dots> = image_mset t_node (mset items) + {#t_node new#}" unfolding assms by simp
  finally show ?thesis by simp
qed

lemma add_existing_spec:
  assumes "add_existing nk chs topo = Inr topo'" and "seqs_ok topo" and "keyed topo"
  shows "mset (map t_node topo') = mset (map t_node topo) + mset (filter (\<lambda>ch. c_key ch \<notin> set nk) chs)
       \<and> seqs_ok topo' \<and> keyed topo' \<and> (after_ok topo \<longrightarrow> after_ok topo')"
  using assms
proof (induction chs arbitrary: topo)
  case Nil
  then show ?case by simp
next
  case (Cons ch chs)
  show ?case
  proof (cases "c_key ch \<in> set nk")
    case True
    with Cons.prems(1) have "add_existing nk chs topo = Inr topo'" by simp
    from Cons.IH [OF this Cons.prems(2,3)] True show ?thesis by simp
  next
    case False
    with Cons.prems(1) obtain topo1 where
      a: "topo_add topo ch (refs_roots (c_schema ch)) (c_key ch) = Inr topo1"
      and r: "add_existing nk chs topo1 = Inr topo'"
      by (auto split: sum.splits)
    note ts = topo_add_spec [OF Cons.prems(2) a]
    then have m: "mset topo1 = mset topo + {#\<lparr>t_seq = length topo, t_after = refs_roots (c_schema ch),
                      t_group = c_key ch, t_node = ch\<rparr>#}"
      and so: "seqs_ok topo1" and ao: "after_ok topo1" by blast+
    have k1: "keyed topo1" by (rule keyed_mset [OF m Cons.prems(3)]) simp_all
    from Cons.IH [OF r so k1] ao nodes_mset [OF m] False show ?thesis by simp
  qed
qed

lemma add_fields_spec:
  assumes "add_fields cast fm topo = Inr topo'" and "seqs_ok topo" and "keyed topo"
  shows "mset (map t_node topo') = mset (map t_node topo) + mset (declared cast fm)
       \<and> seqs_ok topo' \<and> keyed topo' \<and> (fm \<noteq> [] \<or> after_ok topo \<longrightarrow> after_ok topo')
       \<and> map c_key (declared cast fm) = map fst fm"
  using assms
proof (induction fm arbitrary: topo)
  case Nil
  then show ?case by (simp add: declared_def)
next
  case (Cons f fm)
  obtain key decl where f: "f = (key, decl)" by (cases f)
  from Cons.prems(1) f obtain sch topo1 where
    c: "cast decl = Inr sch"
    and a: "topo_add topo \<lparr>c_key = key, c_schema = sch\<rparr> (refs_roots sch) key = Inr topo1"
    and r: "add_fields cast fm topo1 = Inr topo'"
    by (auto split: sum.splits)
  note ts = topo_add_spec [OF Cons.prems(2) a]
  then have m: "mset topo1 = mset topo + {#\<lparr>t_seq = length topo, t_after = refs_roots sch,
                      t_group = key, t_node = \<lparr>c_key = key, c_schema = sch\<rparr>\<rparr>#}"
    and so: "seqs_ok topo1" and ao: "after_ok topo1" by blast+
  have k1: "keyed topo1" by (rule keyed_mset [OF m Cons.prems(3)]) simp_all
  have d: "declared cast (f # fm) = \<lparr>c_key = key, c_schema = sch\<rparr> # declared cast fm"
    using c f by (simp add: declared_def)
  have fk: "fst f = key" using f by simp
  from Cons.IH [OF r so k1] ao nodes_mset [OF m] show ?case unfolding d by (simp add: fk)
qed

lemma after_ok_nodes:
  assumes "after_ok items" and "keyed items"
  shows "\<forall>xs y ys. map t_node items = xs @ y # ys \<longrightarrow>
           (\<forall>x \<in> set (map t_node items). c_key x \<in> set (refs_roots (c_schema y)) \<longrightarrow> x \<in> set xs)"
proof (intro allI impI ballI)
  fix xs y ys x
  assume eq: "map t_node items = xs @ y # ys" and x: "x \<in> set (map t_node items)"
    and g: "c_key x \<in> set (refs_roots (c_schema y))"
  from eq obtain ixs iy iys where i: "items = ixs @ iy # iys" "map t_node ixs = xs" "t_node iy = y"
    by (auto simp: map_eq_append_conv map_eq_Cons_conv)
  from x obtain ix where ix: "ix \<in> set items" "t_node ix = x" by auto
  have "iy \<in> set items" using i(1) by simp
  with assms(2) ix g i(3) have "t_group ix \<in> set (t_after iy)" unfolding keyed_def by auto
  with assms(1) i(1) ix(1) have "ix \<in> set ixs" unfolding after_ok_def by blast
  with ix(2) i(2) show "x \<in> set xs" by auto
qed

lemma object_keys_spec:
  assumes "object_keys cast obj (Some fm) = Inr obj'" and "fm \<noteq> []"
  shows "\<exists>cs. children obj' = Some cs
           \<and> mset cs = mset (untouched obj fm @ declared cast fm)
           \<and> map c_key (declared cast fm) = map fst fm
           \<and> (\<forall>xs y ys. cs = xs @ y # ys \<longrightarrow>
                (\<forall>x \<in> set cs. c_key x \<in> set (refs_roots (c_schema y)) \<longrightarrow> x \<in> set xs))"
proof -
  let ?chs = "case children obj of None \<Rightarrow> [] | Some chs \<Rightarrow> chs"
  from assms obtain topo topo1 where
    e: "add_existing (map fst fm) ?chs [] = Inr topo"
    and f: "add_fields cast fm topo = Inr topo1"
    and o: "obj' = obj\<lparr>children := Some (map t_node topo1)\<rparr>"
    by (auto simp: object_keys_def split: sum.splits)
  have s0: "seqs_ok []" "keyed []" by (simp_all add: seqs_ok_def keyed_def)
  note es = add_existing_spec [OF e s0]
  then have so: "seqs_ok topo" and k: "keyed topo" by blast+
  note fs = add_fields_spec [OF f so k]
  have m: "mset (map t_node topo1) = mset (untouched obj fm @ declared cast fm)"
    using es fs by (simp add: untouched_def)
  have ao: "after_ok topo1" and k1: "keyed topo1" using fs assms(2) by blast+
  from after_ok_nodes [OF ao k1] m fs o show ?thesis by simp
qed

lemma concat_by_key:
  "distinct (map f xs) \<Longrightarrow> concat (map (\<lambda>q. filter (\<lambda>y. f y = q) xs) (map f xs)) = xs"
proof (induction xs)
  case Nil
  then show ?case by simp
next
  case (Cons x xs)
  have nx: "f x \<notin> f ` set xs" and d: "distinct (map f xs)" using Cons.prems by auto
  have h: "filter (\<lambda>y. f y = f x) xs = []"
    unfolding filter_empty_conv using nx by (metis image_eqI)
  have "map (\<lambda>q. filter (\<lambda>y. f y = q) (x # xs)) (map f xs) = map (\<lambda>q. filter (\<lambda>y. f y = q) xs) (map f xs)"
  proof (rule map_cong [OF refl])
    fix q assume "q \<in> set (map f xs)"
    with nx have "f x \<noteq> q" by auto
    then show "filter (\<lambda>y. f y = q) (x # xs) = filter (\<lambda>y. f y = q) xs" by simp
  qed
  then have t: "concat (map (\<lambda>q. filter (\<lambda>y. f y = q) (x # xs)) (map f xs)) = xs"
    by (simp only: Cons.IH [OF d])
  have hd: "filter (\<lambda>y. f y = f x) (x # xs) = [x]" using h by simp
  show ?case by (simp only: list.map concat.simps hd t append.simps)
qed

lemma topo_sort_no_edges:
  assumes "map t_seq items = [0..<length items]"
    and "\<forall>x \<in> set items. \<forall>y \<in> set items. t_group x \<notin> set (t_after y)"
  shows "topo_sort items = Some items"
proof -
  have none: "topo_ancestors items c = None" for c
  proof -
    have "concat (map (\<lambda>it. map t_seq (filter (\<lambda>n. t_group n \<in> set (t_after it)) items))
                     (filter (\<lambda>it. t_seq it = c) items)) = []"
      using assms(2) by (auto simp: filter_empty_conv)
    then show ?thesis unfolding topo_ancestors_def by (simp only: list.case)
  qed
  have ss: "sort_steps (length items) [0..<length items] (topo_ancestors items) [] = [0..<length items]"
    using sort_steps_no_ancestors [of "[0..<length items]" "topo_ancestors items" "length items" "[]"] none
    by simp
  have d: "distinct (map t_seq items)" unfolding assms(1) by simp
  have "concat (map (\<lambda>q. filter (\<lambda>it. t_seq it = q) items) [0..<length items]) = items"
    using concat_by_key [OF d] unfolding assms(1) .
  then show ?thesis unfolding topo_sort_def Let_def ss by simp
qed

lemma topo_add_no_edges:
  assumes "map t_seq items = [0..<length items]" and "keyed items"
    and "edge_free (map t_node items @ [node])"
  shows "topo_add items node (refs_roots (c_schema node)) (c_key node) =
           Inr (items @ [\<lparr>t_seq = length items, t_after = refs_roots (c_schema node),
                          t_group = c_key node, t_node = node\<rparr>])"
proof -
  let ?new = "\<lparr>t_seq = length items, t_after = refs_roots (c_schema node),
               t_group = c_key node, t_node = node\<rparr>"
  have s: "map t_seq (items @ [?new]) = [0..<length (items @ [?new])]"
    using assms(1) by simp
  have k: "keyed (items @ [?new])" using assms(2) by (auto simp: keyed_def)
  have e: "\<forall>x \<in> set (items @ [?new]). \<forall>y \<in> set (items @ [?new]). t_group x \<notin> set (t_after y)"
  proof (intro ballI)
    fix x y assume x: "x \<in> set (items @ [?new])" and y: "y \<in> set (items @ [?new])"
    from x y have "t_node x \<in> set (map t_node items @ [node])" "t_node y \<in> set (map t_node items @ [node])"
      by auto
    with assms(3) have "c_key (t_node x) \<notin> set (refs_roots (c_schema (t_node y)))"
      unfolding edge_free_def by blast
    with k x y show "t_group x \<notin> set (t_after y)" unfolding keyed_def by metis
  qed
  from topo_sort_no_edges [OF s e] show ?thesis by (simp add: topo_add_def)
qed

lemma edge_free_subset: "edge_free cs \<Longrightarrow> set ds \<subseteq> set cs \<Longrightarrow> edge_free ds"
  unfolding edge_free_def by blast

lemma add_existing_no_edges:
  assumes "map t_seq topo = [0..<length topo]" and "keyed topo"
    and "edge_free (map t_node topo @ filter (\<lambda>ch. c_key ch \<notin> set nk) chs)"
  shows "\<exists>topo'. add_existing nk chs topo = Inr topo'
           \<and> map t_node topo' = map t_node topo @ filter (\<lambda>ch. c_key ch \<notin> set nk) chs
           \<and> map t_seq topo' = [0..<length topo'] \<and> keyed topo'"
  using assms
proof (induction chs arbitrary: topo)
  case Nil
  then show ?case by simp
next
  case (Cons ch chs)
  show ?case
  proof (cases "c_key ch \<in> set nk")
    case True
    with Cons.IH [OF Cons.prems(1,2)] Cons.prems(3) show ?thesis by simp
  next
    case False
    let ?new = "\<lparr>t_seq = length topo, t_after = refs_roots (c_schema ch),
                 t_group = c_key ch, t_node = ch\<rparr>"
    have e1: "edge_free (map t_node topo @ [ch])"
      by (rule edge_free_subset [OF Cons.prems(3)]) (use False in auto)
    have a: "topo_add topo ch (refs_roots (c_schema ch)) (c_key ch) = Inr (topo @ [?new])"
      by (rule topo_add_no_edges [OF Cons.prems(1,2) e1])
    have s1: "map t_seq (topo @ [?new]) = [0..<length (topo @ [?new])]" using Cons.prems(1) by simp
    have k1: "keyed (topo @ [?new])" using Cons.prems(2) by (auto simp: keyed_def)
    have e2: "edge_free (map t_node (topo @ [?new]) @ filter (\<lambda>ch. c_key ch \<notin> set nk) chs)"
      using Cons.prems(3) False by simp
    from Cons.IH [OF s1 k1 e2] a False show ?thesis by simp
  qed
qed

lemma add_fields_no_edges:
  assumes "add_fields cast fm topo = Inr topo'"
    and "map t_seq topo = [0..<length topo]" and "keyed topo"
    and "edge_free (map t_node topo @ declared cast fm)"
  shows "map t_node topo' = map t_node topo @ declared cast fm"
  using assms
proof (induction fm arbitrary: topo)
  case Nil
  then show ?case by (simp add: declared_def)
next
  case (Cons f fm)
  obtain key decl where f: "f = (key, decl)" by (cases f)
  from Cons.prems(1) f obtain sch topo1 where
    c: "cast decl = Inr sch"
    and a: "topo_add topo \<lparr>c_key = key, c_schema = sch\<rparr> (refs_roots sch) key = Inr topo1"
    and r: "add_fields cast fm topo1 = Inr topo'"
    by (auto split: sum.splits)
  let ?node = "\<lparr>c_key = key, c_schema = sch\<rparr>"
  let ?new = "\<lparr>t_seq = length topo, t_after = refs_roots sch, t_group = key, t_node = ?node\<rparr>"
  have d: "declared cast (f # fm) = ?node # declared cast fm"
    using c f by (simp add: declared_def)
  have e1: "edge_free (map t_node topo @ [?node])"
    by (rule edge_free_subset [OF Cons.prems(4)]) (auto simp: d)
  have "topo_add topo ?node (refs_roots (c_schema ?node)) (c_key ?node) = Inr (topo @ [?new])"
    using topo_add_no_edges [OF Cons.prems(2,3) e1] by simp
  with a have t1: "topo1 = topo @ [?new]" by simp
  have s1: "map t_seq topo1 = [0..<length topo1]" unfolding t1 using Cons.prems(2) by simp
  have k1: "keyed topo1" unfolding t1 using Cons.prems(3) by (auto simp: keyed_def)
  have e2: "edge_free (map t_node topo1 @ declared cast fm)"
    unfolding t1 using Cons.prems(4) by (simp add: d)
  from Cons.IH [OF r s1 k1 e2] show ?case unfolding d t1 by simp
qed

lemma object_keys_no_edges:
  assumes "object_keys cast obj (Some fm) = Inr obj'" and "fm \<noteq> []"
    and "edge_free (untouched obj fm @ declared cast fm)"
  shows "children obj' = Some (untouched obj fm @ declared cast fm)"
proof -
  let ?chs = "case children obj of None \<Rightarrow> [] | Some chs \<Rightarrow> chs"
  from assms(1,2) obtain topo topo1 where
    e: "add_existing (map fst fm) ?chs [] = Inr topo"
    and f: "add_fields cast fm topo = Inr topo1"
    and o: "obj' = obj\<lparr>children := Some (map t_node topo1)\<rparr>"
    by (auto simp: object_keys_def split: sum.splits)
  have e0: "edge_free (map t_node [] @ filter (\<lambda>ch. c_key ch \<notin> set (map fst fm)) ?chs)"
    by (rule edge_free_subset [OF assms(3)]) (auto simp: untouched_def)
  from add_existing_no_edges [of "[]", OF _ _ e0] e
  have t: "map t_node topo = untouched obj fm" "map t_seq topo = [0..<length topo]" "keyed topo"
    by (auto simp: keyed_def untouched_def)
  have e1: "edge_free (map t_node topo @ declared cast fm)" using assms(3) t(1) by simp
  from add_fields_no_edges [OF f t(2,3) e1] t(1) o show ?thesis by simp
qed

section \<open>The order in which \<open>keys\<close> leaves the children\<close>

lemma keys_example_reference:
  "object_keys Inr empty_object (Some [(''b'', accepting [''a'']), (''a'', accepting [])]) =
   Inr (empty_object\<lparr>children := Some [\<lparr>c_key = ''a'', c_schema = accepting []\<rparr>,
                                         \<lparr>c_key = ''b'', c_schema = accepting [''a'']\<rparr>]\<rparr>)"
  by (simp add: object_keys_def empty_object_def topo_add_def topo_sort_def topo_ancestors_def
      accepting_def Let_def)


text \<open>
  Claim C1. When \<open>keys\<close> succeeds on a field map that declares a field \<open>b\<close> whose schema
  has \<open>a\<close> among its reference roots and also declares the field \<open>a\<close>, wherever the two
  stand in the field map, the resulting children hold a child with key \<open>a\<close> in front of
  the child \<open>b\<close>; moreover no child with key \<open>a\<close> stands at or behind any child whose
  schema has \<open>a\<close> among its reference roots.
\<close>

theorem keys_places_referenced_first:
  assumes "object_keys cast obj (Some fm) = Inr obj'"
    and "(a, da) \<in> set fm" and "(b, db) \<in> set fm"
    and "cast db = Inr sb" and "a \<in> set (refs_roots sb)"
  shows "\<exists>cs xs ca ys zs. children obj' = Some cs
           \<and> cs = xs @ ca # ys @ \<lparr>c_key = b, c_schema = sb\<rparr> # zs \<and> c_key ca = a
           \<and> (\<forall>us y vs. cs = us @ y # vs \<and> a \<in> set (refs_roots (c_schema y)) \<longrightarrow>
                 (\<forall>x \<in> set cs. c_key x = a \<longrightarrow> x \<in> set us))"
proof -
  have ne: "fm \<noteq> []" using assms(2) by auto
  from object_keys_spec [OF assms(1) ne] obtain cs where
    c: "children obj' = Some cs"
    and m: "mset cs = mset (untouched obj fm @ declared cast fm)"
    and k: "map c_key (declared cast fm) = map fst fm"
    and o: "\<forall>xs y ys. cs = xs @ y # ys \<longrightarrow>
              (\<forall>x \<in> set cs. c_key x \<in> set (refs_roots (c_schema y)) \<longrightarrow> x \<in> set xs)"
    by blast
  have sub: "set (declared cast fm) \<subseteq> set cs"
    using m by (metis mset_eq_setD set_append sup_ge2)
  let ?cb = "\<lparr>c_key = b, c_schema = sb\<rparr>"
  have "?cb \<in> set (declared cast fm)"
    unfolding declared_def using assms(3,4) by force
  with sub have cb: "?cb \<in> set cs" by blast
  have "a \<in> set (map fst fm)" using assms(2) by force
  then have "a \<in> set (map c_key (declared cast fm))" unfolding k .
  then obtain ca where ca: "ca \<in> set (declared cast fm)" "c_key ca = a" by auto
  with sub have ca': "ca \<in> set cs" by blast
  from cb obtain us zs where s1: "cs = us @ ?cb # zs" by (meson split_list)
  with o ca' ca(2) assms(5) have "ca \<in> set us" by auto
  then obtain xs ys where s2: "us = xs @ ca # ys" by (meson split_list)
  have d: "cs = xs @ ca # ys @ ?cb # zs" using s1 s2 by simp
  have g: "\<forall>us y vs. cs = us @ y # vs \<and> a \<in> set (refs_roots (c_schema y)) \<longrightarrow>
                 (\<forall>x \<in> set cs. c_key x = a \<longrightarrow> x \<in> set us)"
    using o by blast
  from c d ca(2) g show ?thesis by blast
qed

theorem keys_places_referenced_first_witness:
  "object_keys Inr empty_object (Some [(''b'', accepting [''a'']), (''a'', accepting [])]) =
   Inr (empty_object\<lparr>children := Some [\<lparr>c_key = ''a'', c_schema = accepting []\<rparr>,
                                         \<lparr>c_key = ''b'', c_schema = accepting [''a'']\<rparr>]\<rparr>)
 \<and> (\<exists>cs xs ca ys zs.
       children (empty_object\<lparr>children := Some [\<lparr>c_key = ''a'', c_schema = accepting []\<rparr>,
                                         \<lparr>c_key = ''b'', c_schema = accepting [''a'']\<rparr>]\<rparr>) = Some cs
       \<and> cs = xs @ ca # ys @ \<lparr>c_key = ''b'', c_schema = accepting [''a'']\<rparr> # zs
       \<and> c_key ca = ''a'')"
proof -
  have h: "(''a'', accepting []) \<in> set [(''b'', accepting [''a'']), (''a'', accepting [])]"
    "(''b'', accepting [''a'']) \<in> set [(''b'', accepting [''a'']), (''a'', accepting [])]"
    "Inr (accepting [''a'']) = (Inr (accepting [''a'']) :: build_error + schema_node)"
    "''a'' \<in> set (refs_roots (accepting [''a'']))"
    by (simp_all add: accepting_def)
  from keys_places_referenced_first [OF keys_example_reference h]
  have "\<exists>cs xs ca ys zs.
       children (empty_object\<lparr>children := Some [\<lparr>c_key = ''a'', c_schema = accepting []\<rparr>,
                                         \<lparr>c_key = ''b'', c_schema = accepting [''a'']\<rparr>]\<rparr>) = Some cs
       \<and> cs = xs @ ca # ys @ \<lparr>c_key = ''b'', c_schema = accepting [''a'']\<rparr> # zs
       \<and> c_key ca = ''a''" by blast
  with keys_example_reference show ?thesis by blast
qed


text \<open>
  Claim C2 says that a key declared again keeps its position relative to the untouched
  keys. \<open>keys\<close> leaves it out when it re-adds the existing children (line 382) and adds it
  with the field map afterwards: with the children \<open>a\<close>, \<open>b\<close> (as \<open>keys\<close> itself builds
  them) and a field map that declares \<open>a\<close> again, \<open>a\<close> moves from before \<open>b\<close> to behind it.
\<close>

theorem keys_redeclared_position_counterexample:
  "object_keys Inr empty_object (Some [(''a'', accepting []), (''b'', accepting [])]) =
   Inr (empty_object\<lparr>children := Some [\<lparr>c_key = ''a'', c_schema = accepting []\<rparr>,
                                         \<lparr>c_key = ''b'', c_schema = accepting []\<rparr>]\<rparr>)
 \<and> object_keys Inr
     (empty_object\<lparr>children := Some [\<lparr>c_key = ''a'', c_schema = accepting []\<rparr>,
                                    \<lparr>c_key = ''b'', c_schema = accepting []\<rparr>]\<rparr>)
     (Some [(''a'', replacing (JNum 1))]) =
   Inr (empty_object\<lparr>children := Some [\<lparr>c_key = ''b'', c_schema = accepting []\<rparr>,
                                         \<lparr>c_key = ''a'', c_schema = replacing (JNum 1)\<rparr>]\<rparr>)"
  by (simp add: object_keys_def empty_object_def topo_add_def topo_sort_def topo_ancestors_def
      accepting_def replacing_def Let_def)

lemma keys_example_redeclare:
  "object_keys Inr
     (empty_object\<lparr>children := Some [\<lparr>c_key = ''a'', c_schema = accepting []\<rparr>,
                                    \<lparr>c_key = ''b'', c_schema = accepting []\<rparr>]\<rparr>)
     (Some [(''a'', replacing (JNum 1)), (''c'', accepting [])]) =
   Inr (empty_object\<lparr>children := Some [\<lparr>c_key = ''b'', c_schema = accepting []\<rparr>,
                                         \<lparr>c_key = ''a'', c_schema = replacing (JNum 1)\<rparr>,
                                         \<lparr>c_key = ''c'', c_schema = accepting []\<rparr>]\<rparr>)"
  by (simp add: object_keys_def empty_object_def topo_add_def topo_sort_def topo_ancestors_def
      accepting_def replacing_def Let_def)


text \<open>
  Claim C2, amended. When \<open>keys\<close> succeeds on a non-empty field map, the resulting children
  are, up to their order, the untouched children (those whose key the field map does not
  declare) together with one child per entry of the field map, a key declared again being
  treated exactly like a new one and carrying its new schema; in that sequence every child
  comes behind each child whose key is among its reference roots; and when there is no such
  reference among them, the sequence is the untouched children in their previous order
  followed by the entries of the field map in its order.
\<close>

theorem keys_redeclared_like_new:
  assumes "object_keys cast obj (Some fm) = Inr obj'" and "fm \<noteq> []"
  shows "\<exists>cs. children obj' = Some cs
           \<and> mset cs = mset (untouched obj fm @ declared cast fm)
           \<and> map c_key (declared cast fm) = map fst fm
           \<and> (\<forall>xs y ys. cs = xs @ y # ys \<longrightarrow>
                (\<forall>x \<in> set cs. c_key x \<in> set (refs_roots (c_schema y)) \<longrightarrow> x \<in> set xs))
           \<and> (edge_free (untouched obj fm @ declared cast fm) \<longrightarrow>
                cs = untouched obj fm @ declared cast fm)"
  using object_keys_spec [OF assms] object_keys_no_edges [OF assms] by auto

theorem keys_redeclared_like_new_witness:
  "object_keys Inr
     (empty_object\<lparr>children := Some [\<lparr>c_key = ''a'', c_schema = accepting []\<rparr>,
                                    \<lparr>c_key = ''b'', c_schema = accepting []\<rparr>]\<rparr>)
     (Some [(''a'', replacing (JNum 1)), (''c'', accepting [])]) =
   Inr (empty_object\<lparr>children := Some [\<lparr>c_key = ''b'', c_schema = accepting []\<rparr>,
                                         \<lparr>c_key = ''a'', c_schema = replacing (JNum 1)\<rparr>,
                                         \<lparr>c_key = ''c'', c_schema = accepting []\<rparr>]\<rparr>)
 \<and> untouched
     (empty_object\<lparr>children := Some [\<lparr>c_key = ''a'', c_schema = accepting []\<rparr>,
                                    \<lparr>c_key = ''b'', c_schema = accepting []\<rparr>]\<rparr>)
     [(''a'', replacing (JNum 1)), (''c'', accepting [])] = [\<lparr>c_key = ''b'', c_schema = accepting []\<rparr>]
 \<and> declared Inr [(''a'', replacing (JNum 1)), (''c'', accepting [])] =
     [\<lparr>c_key = ''a'', c_schema = replacing (JNum 1)\<rparr>, \<lparr>c_key = ''c'', c_schema = accepting []\<rparr>]
 \<and> edge_free [\<lparr>c_key = ''b'', c_schema = accepting []\<rparr>,
              \<lparr>c_key = ''a'', c_schema = replacing (JNum 1)\<rparr>,
              \<lparr>c_key = ''c'', c_schema = accepting []\<rparr>]"
proof -
  let ?obj = "empty_object\<lparr>children := Some [\<lparr>c_key = ''a'', c_schema = accepting []\<rparr>,
                                    \<lparr>c_key = ''b'', c_schema = accepting []\<rparr>]\<rparr>"
  let ?fm = "[(''a'', replacing (JNum 1)), (''c'', accepting [])]"
  have u: "untouched ?obj ?fm = [\<lparr>c_key = ''b'', c_schema = accepting []\<rparr>]"
    by (simp add: untouched_def empty_object_def)
  have d: "declared Inr ?fm =
     [\<lparr>c_key = ''a'', c_schema = replacing (JNum 1)\<rparr>, \<lparr>c_key = ''c'', c_schema = accepting []\<rparr>]"
    by (simp add: declared_def)
  have e: "edge_free (untouched ?obj ?fm @ declared Inr ?fm)"
    unfolding u d by (simp add: edge_free_def accepting_def replacing_def)
  have ne: "?fm \<noteq> []" by simp
  from keys_redeclared_like_new [OF keys_example_redeclare ne] e
  have "children (empty_object\<lparr>children := Some [\<lparr>c_key = ''b'', c_schema = accepting []\<rparr>,
                                         \<lparr>c_key = ''a'', c_schema = replacing (JNum 1)\<rparr>,
                                         \<lparr>c_key = ''c'', c_schema = accepting []\<rparr>]\<rparr>) =
        Some (untouched ?obj ?fm @ declared Inr ?fm)"
    by blast
  with keys_example_redeclare u d e show ?thesis by simp
qed

end
